theory Spec2Isabelle
  imports Complex_Main
begin

section \<open>Data model\<close>

text \<open>
  The C++ \<^verbatim>\<open>double\<close> is modelled by \<^typ>\<open>real\<close>: rounding, infinities and NaN are
  outside the model. A dense vector is a list of reals, a dense matrix the list of its rows.
  \<^verbatim>\<open>VectorValues\<close> is a keyed store of vectors.
\<close>

type_synonym Key = nat
type_synonym Vector = "real list"
type_synonym Matrix = "real list list"
type_synonym VectorValues = "Key \<rightharpoonup> Vector"

text \<open>The failures the spec's error taxonomy (section 7) names; each C++ exception is a value.\<close>

datatype error =
    MissingParent Key
  | MissingKey Key
  | DuplicateVariable
  | DimensionMismatch

text \<open>
  A conditional in square-root information form \<open>R x\<^sub>f + \<Sum>\<^sub>j S\<^sub>j x\<^sub>p\<^sub>j = d\<close>, with the accessors
  the source calls (\<^verbatim>\<open>get_R\<close>, \<^verbatim>\<open>get_model\<close>). \<open>get_model = None\<close> is the null
  noise-model pointer; \<open>Some sigmas\<close> is a diagonal noise model with per-row scales
  \<open>sigmas\<close>. \<open>getDim k\<close> is the block dimension of key \<open>k\<close>.
\<close>

record GaussianConditional =
  frontals :: "Key list"
  parents :: "Key list"
  getDim :: "Key \<Rightarrow> nat"
  get_R :: Matrix
  get_S :: "Matrix list"
  get_d :: Vector
  get_model :: "Vector option"

type_synonym GaussianBayesNet = "GaussianConditional list"

section \<open>Dense linear algebra on lists\<close>

definition dot :: "Vector \<Rightarrow> Vector \<Rightarrow> real" where
  "dot u v = sum_list (map2 (*) u v)"

definition mat_vec :: "Matrix \<Rightarrow> Vector \<Rightarrow> Vector" where
  "mat_vec M v = map (\<lambda>row. dot row v) M"

definition vec_sub :: "Vector \<Rightarrow> Vector \<Rightarrow> Vector" where
  "vec_sub u v = map2 (-) u v"

text \<open>\<^verbatim>\<open>M.diagonal()\<close>: the entries \<open>M\<^sub>i\<^sub>i\<close>, as many as rows and columns allow.\<close>

fun diagonal_from :: "nat \<Rightarrow> Matrix \<Rightarrow> Vector" where
  "diagonal_from i [] = []"
| "diagonal_from i (r # rs) = (if i < length r then r ! i # diagonal_from (Suc i) rs else [])"

definition diagonal :: "Matrix \<Rightarrow> Vector" where
  "diagonal M = diagonal_from 0 M"

section \<open>Determinant engine\<close>

text \<open>
  Modelled from the spec: the noise model's \<^verbatim>\<open>whitenInPlace\<close> is not in the source
  file. Section 8: "whitening divides the diagonal entry by \<open>\<sigma>\<close> before the log", row by
  row.
\<close>

definition whitenInPlace :: "Vector \<Rightarrow> Vector \<Rightarrow> Vector" where
  "whitenInPlace sigmas v = map2 (/) v sigmas"

text \<open>
  \<^verbatim>\<open>GaussianBayesNet::logDeterminant\<close>: the accumulator starts at \<open>0.0\<close>; each conditional,
  in stored order, adds the sum of the logarithms of its (whitened, when a model is
  present) R-diagonal.
\<close>

definition logDeterminant_step :: "real \<Rightarrow> GaussianConditional \<Rightarrow> real" where
  "logDeterminant_step logDet cg =
     (case get_model cg of
        Some sigmas \<Rightarrow> logDet + sum_list (map ln (whitenInPlace sigmas (diagonal (get_R cg))))
      | None \<Rightarrow> logDet + sum_list (map ln (diagonal (get_R cg))))"

definition logDeterminant :: "GaussianBayesNet \<Rightarrow> real" where
  "logDeterminant bn = foldl logDeterminant_step 0 bn"

text \<open>\<^verbatim>\<open>GaussianBayesNet::determinant\<close>: \<^verbatim>\<open>return exp(logDeterminant());\<close>\<close>

definition determinant :: "GaussianBayesNet \<Rightarrow> real" where
  "determinant bn = exp (logDeterminant bn)"

section \<open>The value store and the conditional's solve\<close>

text \<open>
  Modelled from the spec: \<^verbatim>\<open>VectorValues::insert\<close> is not in the source file. Section 6:
  "keyed insert (errors on duplicate key)".
\<close>

definition VectorValues_insert :: "VectorValues \<Rightarrow> VectorValues \<Rightarrow> error + VectorValues" where
  "VectorValues_insert vv values =
     (if dom vv \<inter> dom values \<noteq> {} then Inl DuplicateVariable else Inr (vv ++ values))"

text \<open>
  Modelled from the spec: the value store's lookup is not in the source file. Section 6:
  "keyed lookup (errors on missing key)"; for a list of keys the first absent key is the
  error.
\<close>

fun lookup_all :: "(Key \<Rightarrow> error) \<Rightarrow> VectorValues \<Rightarrow> Key list \<Rightarrow> error + Vector list" where
  "lookup_all err x [] = Inr []"
| "lookup_all err x (k # ks) =
     (case x k of
        None \<Rightarrow> Inl (err k)
      | Some v \<Rightarrow> (case lookup_all err x ks of Inl e \<Rightarrow> Inl e | Inr vs \<Rightarrow> Inr (v # vs)))"

text \<open>
  Modelled from the spec: the triangular solve \<open>R\<inverse> b\<close> of the conditional is not in the
  source file. Section 3: \<open>R\<close> is square, upper-triangular, with a non-zero diagonal. The
  system \<open>R x = b\<close> is solved for the rows from \<open>i\<close> on, last row first:
  \<open>x\<^sub>i = (b\<^sub>i - \<Sum>\<^sub>j\<^sub>>\<^sub>i R\<^sub>i\<^sub>j x\<^sub>j) / R\<^sub>i\<^sub>i\<close>. Entries below the diagonal are not read.
\<close>

fun backSubstituteUpper_from :: "nat \<Rightarrow> Matrix \<Rightarrow> Vector \<Rightarrow> Vector" where
  "backSubstituteUpper_from i (r # rs) (b # bs) =
     (let xs = backSubstituteUpper_from (Suc i) rs bs
      in (b - dot (drop (Suc i) r) xs) / (r ! i) # xs)"
| "backSubstituteUpper_from i _ _ = []"

definition backSubstituteUpper :: "Matrix \<Rightarrow> Vector \<Rightarrow> Vector" where
  "backSubstituteUpper Rm b = backSubstituteUpper_from 0 Rm b"

text \<open>
  Modelled from the spec: section 4.1, the reduced right-hand side \<open>b - \<Sum>\<^sub>j S\<^sub>j x\<^sub>p\<^sub>j\<close>, one
  parent block after the other.
\<close>

fun subtract_parents :: "Vector \<Rightarrow> Matrix list \<Rightarrow> Vector list \<Rightarrow> Vector" where
  "subtract_parents b (Sj # Ss) (v # vs) = subtract_parents (vec_sub b (mat_vec Sj v)) Ss vs"
| "subtract_parents b _ _ = b"

text \<open>
  Modelled from the spec: sections 3 and 6. The solved frontal vector is cut into the blocks
  of the frontal keys, each inserted into the result under its key; a key already there is
  the duplicate-variable error.
\<close>

fun insert_frontals :: "(Key \<Rightarrow> nat) \<Rightarrow> VectorValues \<Rightarrow> Key list \<Rightarrow> Vector \<Rightarrow> error + VectorValues" where
  "insert_frontals dimOf result [] soln = Inr result"
| "insert_frontals dimOf result (k # ks) soln =
     (if k \<in> dom result then Inl DuplicateVariable
      else insert_frontals dimOf (result(k \<mapsto> take (dimOf k) soln)) ks (drop (dimOf k) soln))"

text \<open>
  Modelled from the spec: \<^verbatim>\<open>GaussianConditional::solve\<close> is not in the source file.
  Sections 4.1, 6 and 7: given the currently known values, the parents are looked up (a
  parent without a value is the missing-parent error), a parent value of the wrong block
  length is the dimension-mismatch error, and the frontal block is
  \<open>x\<^sub>f = R\<inverse> (d - \<Sum>\<^sub>j S\<^sub>j x\<^sub>p\<^sub>j)\<close> with the stored right-hand side \<open>d\<close> (in the comment of
  \<^verbatim>\<open>optimize\<close>, \<^verbatim>\<open>yi.*si\<close> for the whitened right-hand side \<^verbatim>\<open>yi\<close>).
\<close>

definition solve :: "GaussianConditional \<Rightarrow> VectorValues \<Rightarrow> error + VectorValues" where
  "solve cg x =
     (case lookup_all MissingParent x (parents cg) of
        Inl e \<Rightarrow> Inl e
      | Inr vs \<Rightarrow>
          if \<not> list_all2 (\<lambda>k v. length v = getDim cg k) (parents cg) vs then Inl DimensionMismatch
          else insert_frontals (getDim cg) Map.empty (frontals cg)
                 (backSubstituteUpper (get_R cg) (subtract_parents (get_d cg) (get_S cg) vs)))"

section \<open>Back-substitution solve\<close>

text \<open>
  \<^verbatim>\<open>GaussianBayesNet::optimize(solutionForMissing)\<close>: \<open>soln\<close> starts as a copy of the
  argument; the conditionals are visited last to first (\<^verbatim>\<open>BOOST_REVERSE_FOREACH\<close>), each
  \<^verbatim>\<open>soln.insert(cg->solve(soln))\<close>. An exception leaves the loop and the function.
\<close>

fun optimize_loop :: "GaussianConditional list \<Rightarrow> VectorValues \<Rightarrow> error + VectorValues" where
  "optimize_loop [] soln = Inr soln"
| "optimize_loop (cg # cgs) soln =
     (case solve cg soln of
        Inl e \<Rightarrow> Inl e
      | Inr x \<Rightarrow>
          (case VectorValues_insert soln x of
             Inl e \<Rightarrow> Inl e
           | Inr soln' \<Rightarrow> optimize_loop cgs soln'))"

definition optimize :: "GaussianBayesNet \<Rightarrow> VectorValues \<Rightarrow> error + VectorValues" where
  "optimize bn solutionForMissing = optimize_loop (rev bn) solutionForMissing"

text \<open>\<^verbatim>\<open>GaussianBayesNet::optimize()\<close>: no missing variables, an empty store.\<close>

definition optimize0 :: "GaussianBayesNet \<Rightarrow> error + VectorValues" where
  "optimize0 bn = optimize bn Map.empty"

section \<open>General back-substitution\<close>

text \<open>
  Modelled from the spec: \<^verbatim>\<open>GaussianConditional::solveOtherRHS\<close> is not in the source
  file. Section 6: the "variant solving against an externally supplied right-hand side
  rather than the conditional's own stored RHS": the parents are read from the known values,
  the right-hand side is the frontal blocks of \<open>rhs\<close> (keyed lookup, an absent key is an
  error), and the result holds the solved frontal blocks.
\<close>

definition solveOtherRHS :: "GaussianConditional \<Rightarrow> VectorValues \<Rightarrow> VectorValues \<Rightarrow> error + VectorValues" where
  "solveOtherRHS cg parentsValues rhs =
     (case lookup_all MissingParent parentsValues (parents cg) of
        Inl e \<Rightarrow> Inl e
      | Inr vs \<Rightarrow>
          (case lookup_all MissingKey rhs (frontals cg) of
             Inl e \<Rightarrow> Inl e
           | Inr ys \<Rightarrow>
               if \<not> list_all2 (\<lambda>k v. length v = getDim cg k) (parents cg @ frontals cg) (vs @ ys)
               then Inl DimensionMismatch
               else insert_frontals (getDim cg) Map.empty (frontals cg)
                      (backSubstituteUpper (get_R cg) (subtract_parents (concat ys) (get_S cg) vs))))"

text \<open>
  \<^verbatim>\<open>GaussianBayesNet::backSubstitute(rhs)\<close>: \<open>result\<close> starts empty; the conditionals are
  visited last to first, each \<^verbatim>\<open>result.insert(cg->solveOtherRHS(result, rhs))\<close>.
\<close>

fun backSubstitute_loop :: "GaussianConditional list \<Rightarrow> VectorValues \<Rightarrow> VectorValues \<Rightarrow> error + VectorValues" where
  "backSubstitute_loop [] rhs result = Inr result"
| "backSubstitute_loop (cg # cgs) rhs result =
     (case solveOtherRHS cg result rhs of
        Inl e \<Rightarrow> Inl e
      | Inr x \<Rightarrow>
          (case VectorValues_insert result x of
             Inl e \<Rightarrow> Inl e
           | Inr result' \<Rightarrow> backSubstitute_loop cgs rhs result'))"

definition backSubstitute :: "GaussianBayesNet \<Rightarrow> VectorValues \<Rightarrow> error + VectorValues" where
  "backSubstitute bn rhs = backSubstitute_loop (rev bn) rhs Map.empty"

section \<open>Transpose back-substitution\<close>

text \<open>
  Modelled from the spec: section 4.2, the transposed triangular solve of one conditional.
  The lower-triangular system \<open>R\<^sup>T z = b\<close> is solved first entry first:
  \<open>z\<^sub>j = (b\<^sub>j - \<Sum>\<^sub>i\<^sub><\<^sub>j R\<^sub>i\<^sub>j z\<^sub>i) / R\<^sub>j\<^sub>j\<close>; \<open>gz\<close> holds the entries solved so far.
\<close>

fun forwardSubstituteTranspose_from :: "Matrix \<Rightarrow> Vector \<Rightarrow> nat \<Rightarrow> Vector \<Rightarrow> Vector" where
  "forwardSubstituteTranspose_from Rm gz j [] = gz"
| "forwardSubstituteTranspose_from Rm gz j (b # bs) =
     forwardSubstituteTranspose_from Rm
       (gz @ [(b - sum_list (map2 (\<lambda>row z. row ! j * z) Rm gz)) / (Rm ! j ! j)]) (Suc j) bs"

definition forwardSubstituteTranspose :: "Matrix \<Rightarrow> Vector \<Rightarrow> Vector" where
  "forwardSubstituteTranspose Rm b = forwardSubstituteTranspose_from Rm [] 0 b"

text \<open>Modelled from the spec: section 4.2. \<open>M\<^sup>T v\<close> for a block \<open>M\<close> with \<open>n\<close> columns.\<close>

definition transpose_mat_vec :: "nat \<Rightarrow> Matrix \<Rightarrow> Vector \<Rightarrow> Vector" where
  "transpose_mat_vec n M v = map (\<lambda>c. sum_list (map2 (\<lambda>row z. row ! c * z) M v)) [0..<n]"

text \<open>
  Modelled from the spec: section 4.2, the correction \<open>gy\<^sub>p := gy\<^sub>p - S\<^sub>j\<^sup>T gz\<close> propagated into
  every parent block, in the parents' order; a parent key without an entry is the
  missing-key error of the lookup.
\<close>

fun update_parents :: "(Key \<Rightarrow> nat) \<Rightarrow> VectorValues \<Rightarrow> Key list \<Rightarrow> Matrix list \<Rightarrow> Vector \<Rightarrow> error + VectorValues" where
  "update_parents dimOf gy (p # ps) (Sj # Ss) gz =
     (case gy p of
        None \<Rightarrow> Inl (MissingKey p)
      | Some v \<Rightarrow>
          if length v \<noteq> dimOf p then Inl DimensionMismatch
          else update_parents dimOf (gy(p \<mapsto> vec_sub v (transpose_mat_vec (dimOf p) Sj gz))) ps Ss gz)"
| "update_parents dimOf gy _ _ gz = Inr gy"

text \<open>Modelled from the spec: section 4.2. The frontal blocks are written back under their keys.\<close>

fun assign_frontals :: "(Key \<Rightarrow> nat) \<Rightarrow> VectorValues \<Rightarrow> Key list \<Rightarrow> Vector \<Rightarrow> VectorValues" where
  "assign_frontals dimOf gy [] v = gy"
| "assign_frontals dimOf gy (k # ks) v =
     assign_frontals dimOf (gy(k \<mapsto> take (dimOf k) v)) ks (drop (dimOf k) v)"

text \<open>
  Modelled from the spec: \<^verbatim>\<open>GaussianConditional::solveTransposeInPlace\<close> is not in the
  source file. Section 4.2: "an in-place transpose-solve step that updates the result for
  both the conditional's own frontal block and propagates a correction into each parent
  block's contribution"; section 6: keyed lookup errors on a missing key. The source's
  comment on \<^verbatim>\<open>backSubstituteTranspose\<close> gives the scaling: \<^verbatim>\<open>gz'*R'=gx', gy = gz.*sigmas\<close>.
\<close>

definition solveTransposeInPlace :: "GaussianConditional \<Rightarrow> VectorValues \<Rightarrow> error + VectorValues" where
  "solveTransposeInPlace cg gy =
     (case lookup_all MissingKey gy (frontals cg) of
        Inl e \<Rightarrow> Inl e
      | Inr xs \<Rightarrow>
          if \<not> list_all2 (\<lambda>k v. length v = getDim cg k) (frontals cg) xs then Inl DimensionMismatch
          else
            (let gz = forwardSubstituteTranspose (get_R cg) (concat xs) in
             case update_parents (getDim cg) gy (parents cg) (get_S cg) gz of
               Inl e \<Rightarrow> Inl e
             | Inr gy' \<Rightarrow>
                 Inr (assign_frontals (getDim cg) gy' (frontals cg)
                        (case get_model cg of None \<Rightarrow> gz | Some sigmas \<Rightarrow> map2 (*) gz sigmas))))"

text \<open>
  \<^verbatim>\<open>GaussianBayesNet::backSubstituteTranspose(gx)\<close>: \<open>gy\<close> starts as a copy of \<open>gx\<close>; the
  conditionals are visited first to last (\<^verbatim>\<open>BOOST_FOREACH\<close>), each
  \<^verbatim>\<open>cg->solveTransposeInPlace(gy)\<close>.
\<close>

fun backSubstituteTranspose_loop :: "GaussianConditional list \<Rightarrow> VectorValues \<Rightarrow> error + VectorValues" where
  "backSubstituteTranspose_loop [] gy = Inr gy"
| "backSubstituteTranspose_loop (cg # cgs) gy =
     (case solveTransposeInPlace cg gy of
        Inl e \<Rightarrow> Inl e
      | Inr gy' \<Rightarrow> backSubstituteTranspose_loop cgs gy')"

definition backSubstituteTranspose :: "GaussianBayesNet \<Rightarrow> VectorValues \<Rightarrow> error + VectorValues" where
  "backSubstituteTranspose bn gx = backSubstituteTranspose_loop bn gx"

section \<open>Delegation to the factor graph\<close>

text \<open>
  Modelled from the spec: the linear factor and the conversion \<^verbatim>\<open>GaussianFactorGraph(*this)\<close>
  are not in the source file. Section 4.4: "each conditional becomes one linear factor with
  the same R/S/d/noise-model data", in the order of the conditional sequence.
\<close>

record JacobianFactor =
  factor_keys :: "Key list"
  factor_dim :: "Key \<Rightarrow> nat"
  factor_R :: Matrix
  factor_S :: "Matrix list"
  factor_d :: Vector
  factor_model :: "Vector option"

type_synonym GaussianFactorGraph = "JacobianFactor list"

definition asFactor :: "GaussianConditional \<Rightarrow> JacobianFactor" where
  "asFactor cg = \<lparr>factor_keys = frontals cg @ parents cg, factor_dim = getDim cg,
                  factor_R = get_R cg, factor_S = get_S cg, factor_d = get_d cg,
                  factor_model = get_model cg\<rparr>"

definition GaussianFactorGraph :: "GaussianBayesNet \<Rightarrow> GaussianFactorGraph" where
  "GaussianFactorGraph bn = map asFactor bn"

text \<open>
  The four delegating queries. The factor graph's own queries are not in the source file;
  each is a parameter (\<open>fg_gradient\<close>, \<open>fg_gradientAtZero\<close>, \<open>fg_error\<close>, \<open>fg_jacobian\<close>).
\<close>

definition gradient :: "(GaussianFactorGraph \<Rightarrow> VectorValues \<Rightarrow> VectorValues) \<Rightarrow> GaussianBayesNet \<Rightarrow> VectorValues \<Rightarrow> VectorValues" where
  "gradient fg_gradient bn x0 = fg_gradient (GaussianFactorGraph bn) x0"

definition gradientAtZero :: "(GaussianFactorGraph \<Rightarrow> VectorValues) \<Rightarrow> GaussianBayesNet \<Rightarrow> VectorValues" where
  "gradientAtZero fg_gradientAtZero bn = fg_gradientAtZero (GaussianFactorGraph bn)"

definition error :: "(GaussianFactorGraph \<Rightarrow> VectorValues \<Rightarrow> real) \<Rightarrow> GaussianBayesNet \<Rightarrow> VectorValues \<Rightarrow> real" where
  "error fg_error bn x = fg_error (GaussianFactorGraph bn) x"

definition matrix :: "(GaussianFactorGraph \<Rightarrow> Matrix \<times> Vector) \<Rightarrow> GaussianBayesNet \<Rightarrow> Matrix \<times> Vector" where
  "matrix fg_jacobian bn = fg_jacobian (GaussianFactorGraph bn)"

section \<open>The example chain\<close>

text \<open>
  The chain of the spec's section 8: conditional A (frontal \<open>x1\<close>, parent \<open>x2\<close>, \<open>R = [[2]]\<close>,
  \<open>S = [[1]]\<close>, \<open>d = [5]\<close>) and conditional B (frontal \<open>x2\<close>, no parents, \<open>R = [[1]]\<close>,
  \<open>d = [3]\<close>), without noise models. The keys \<open>x1\<close>, \<open>x2\<close> are 1 and 2.
\<close>

definition condA :: GaussianConditional where
  "condA = \<lparr>frontals = [1], parents = [2], getDim = (\<lambda>k. 1), get_R = [[2]],
             get_S = [[[1]]], get_d = [5], get_model = None\<rparr>"

definition condB :: GaussianConditional where
  "condB = \<lparr>frontals = [2], parents = [], getDim = (\<lambda>k. 1), get_R = [[1]],
             get_S = [], get_d = [3], get_model = None\<rparr>"

section \<open>Vocabulary of the claims\<close>

text \<open>The frontal keys of a network, and the keys a conditional refers to at all.\<close>

definition frontal_keys :: "GaussianBayesNet \<Rightarrow> Key set" where
  "frontal_keys bn = (\<Union>cg \<in> set bn. set (frontals cg))"

definition parent_keys :: "GaussianBayesNet \<Rightarrow> Key set" where
  "parent_keys bn = (\<Union>cg \<in> set bn. set (parents cg))"

text \<open>Reading a key of an assignment; an absent key reads as the empty vector.\<close>

definition value_at :: "VectorValues \<Rightarrow> Key \<Rightarrow> Vector" where
  "value_at x k = (case x k of Some v \<Rightarrow> v | None \<Rightarrow> [])"

text \<open>
  \<open>x\<^sub>f\<close>: the frontal blocks of a conditional in an assignment, one after the other; and
  \<open>y - \<Sum>\<^sub>j S\<^sub>j x\<^sub>p\<^sub>j\<close> with the parent blocks read from the assignment.
\<close>

definition frontal_vector :: "VectorValues \<Rightarrow> GaussianConditional \<Rightarrow> Vector" where
  "frontal_vector x cg = concat (map (value_at x) (frontals cg))"

definition reduced_rhs :: "VectorValues \<Rightarrow> GaussianConditional \<Rightarrow> Vector" where
  "reduced_rhs x cg = subtract_parents (get_d cg) (get_S cg) (map (value_at x) (parents cg))"

text \<open>
  An assignment satisfies a conditional when \<open>x\<^sub>f\<close> is the triangular solve of the reduced
  right-hand side, and then \<open>R x\<^sub>f\<close> is that right-hand side.
\<close>

definition satisfies :: "VectorValues \<Rightarrow> GaussianConditional \<Rightarrow> bool" where
  "satisfies x cg \<longleftrightarrow>
     frontal_vector x cg = backSubstituteUpper (get_R cg) (reduced_rhs x cg) \<and>
     mat_vec (get_R cg) (frontal_vector x cg) = reduced_rhs x cg"

text \<open>
  The diagonal the spec's section 4.3 takes the logarithms of: the raw R-diagonal of a
  conditional without a noise model, the diagonal divided row by row by the scales of the
  noise model otherwise.
\<close>

definition whitened_diagonal :: "GaussianConditional \<Rightarrow> Vector" where
  "whitened_diagonal cg =
     (case get_model cg of
        None \<Rightarrow> diagonal (get_R cg)
      | Some sigmas \<Rightarrow> map2 (\<lambda>r sigma. r / sigma) (diagonal (get_R cg)) sigmas)"

text \<open>
  The conditional's invariant (spec, section 3): \<open>R\<close> is square of the frontal dimension,
  upper-triangular with a non-zero diagonal; \<open>d\<close> has as many entries as \<open>R\<close> has rows;
  there is one \<open>S\<close> block per parent, with the rows of \<open>R\<close> and the columns of the
  parent's block.
\<close>

definition wf_conditional :: "GaussianConditional \<Rightarrow> bool" where
  "wf_conditional cg \<longleftrightarrow>
     (let n = sum_list (map (getDim cg) (frontals cg)) in
        length (get_R cg) = n \<and> list_all (\<lambda>row. length row = n) (get_R cg) \<and>
        list_all (\<lambda>i. list_all (\<lambda>j. get_R cg ! i ! j = 0) [0..<i] \<and> get_R cg ! i ! i \<noteq> 0) [0..<n] \<and>
        length (get_d cg) = n \<and>
        list_all2 (\<lambda>p Sj. length Sj = n \<and> list_all (\<lambda>row. length row = getDim cg p) Sj)
          (parents cg) (get_S cg))"

text \<open>
  The network's invariant (spec, section 3), read off the stored order: the parents of the
  conditional at a position are frontals of later positions or supplied externally.
\<close>

fun parents_resolvable :: "GaussianBayesNet \<Rightarrow> Key set \<Rightarrow> bool" where
  "parents_resolvable [] supplied = True"
| "parents_resolvable (cg # bn) supplied =
     (list_all (\<lambda>p. p \<in> supplied \<union> frontal_keys bn) (parents cg) \<and> parents_resolvable bn supplied)"

text \<open>
  One block dimension per key, shared by all conditionals and by the supplied values.
\<close>

definition consistent_dims :: "(Key \<Rightarrow> nat) \<Rightarrow> GaussianBayesNet \<Rightarrow> VectorValues \<Rightarrow> bool" where
  "consistent_dims dims bn supplied \<longleftrightarrow>
     list_all (\<lambda>cg. list_all (\<lambda>k. getDim cg k = dims k) (frontals cg @ parents cg)) bn \<and>
     (\<forall>k v. supplied k = Some v \<longrightarrow> length v = dims k)"

section \<open>Triangular solves on lists\<close>

lemma upper_len: 
  "length rs = length bs \<Longrightarrow> length (backSubstituteUpper_from i rs bs) = length rs" 
  by (induction i rs bs rule: backSubstituteUpper_from.induct) (auto simp: Let_def)

lemma dot_Cons: "dot (a # u) (b # v) = a * b + dot u v"
  by (simp add: dot_def)

lemma dot_Nil: "dot [] v = 0" "dot u [] = 0"
  by (simp_all add: dot_def)

text \<open>A row whose first i entries are zero, against a vector with i leading entries.\<close>
lemma dot_zero_prefix:
  "length pre = i \<Longrightarrow> i \<le> length r \<Longrightarrow> (\<forall>j<i. r ! j = 0) \<Longrightarrow> dot r (pre @ xs) = dot (drop i r) xs"
proof (induction pre arbitrary: i r)
  case Nil
  then show ?case by simp
next
  case (Cons p pre)
  then obtain a r' where r: "r = a # r'" by (cases r) auto
  obtain i' where i: "i = Suc i'" using Cons.prems by auto
  have a0: "a = 0" using Cons.prems(3) r i by auto
  have "\<forall>j<i'. r' ! j = 0" using Cons.prems(3) r i by auto
  then have "dot r' (pre @ xs) = dot (drop i' r') xs"
    using Cons.IH[of i' r'] Cons.prems r i by simp
  then show ?case using r i a0 by (simp add: dot_Cons)
qed

lemma upper_correct:
  assumes "length rs = length bs"
    and "\<forall>r\<in>set rs. length r = i + length rs"
    and "\<forall>k<length rs. rs ! k ! (i + k) \<noteq> 0"
    and "\<forall>k<length rs. \<forall>j<i + k. rs ! k ! j = 0"
    and "length pre = i"
  shows "map (\<lambda>r. dot r (pre @ backSubstituteUpper_from i rs bs)) rs = bs"
  using assms
proof (induction i rs bs arbitrary: pre rule: backSubstituteUpper_from.induct)
  case (1 i r rs b bs)
  define xs where "xs = backSubstituteUpper_from (Suc i) rs bs"
  define x where "x = (b - dot (drop (Suc i) r) xs) / (r ! i)"
  have bsf: "backSubstituteUpper_from i (r # rs) (b # bs) = x # xs"
    by (simp add: xs_def x_def Let_def)
  have len: "length rs = length bs" using "1.prems"(1) by simp
  have rlen: "length r = Suc (i + length rs)" using "1.prems"(2) by simp
  have rii: "r ! i \<noteq> 0" using "1.prems"(3)[rule_format, of 0] by simp
  have rz: "\<forall>j<i. r ! j = 0" using "1.prems"(4)[rule_format, of 0] by simp
  have IH: "map (\<lambda>r. dot r ((pre @ [x]) @ xs)) rs = bs"
    unfolding xs_def
  proof (rule "1.IH")
    show "length rs = length bs" by (rule len)
    show "\<forall>r\<in>set rs. length r = Suc i + length rs" using "1.prems"(2) by simp
    show "\<forall>k<length rs. rs ! k ! (Suc i + k) \<noteq> 0"
      using "1.prems"(3) by (metis add_Suc_shift length_Cons not_less_eq nth_Cons_Suc)
    show "\<forall>k<length rs. \<forall>j<Suc i + k. rs ! k ! j = 0"
    proof (intro allI impI)
      fix k j assume "k < length rs" "j < Suc i + k"
      then show "rs ! k ! j = 0"
        using "1.prems"(4)[rule_format, of "Suc k" j] by simp
    qed
    show "length (pre @ [x]) = Suc i" using "1.prems"(5) by simp
  qed
  have "dot r (pre @ x # xs) = dot (drop i r) (x # xs)"
    by (rule dot_zero_prefix) (use "1.prems"(5) rlen rz in auto)
  also have "drop i r = r ! i # drop (Suc i) r"
    using rlen by (simp add: Cons_nth_drop_Suc)
  also have "dot (r ! i # drop (Suc i) r) (x # xs) = r ! i * x + dot (drop (Suc i) r) xs"
    by (simp add: dot_Cons)
  also have "\<dots> = b" using rii by (simp add: x_def)
  finally have row: "dot r (pre @ x # xs) = b" .
  show ?case unfolding bsf using row IH by simp
qed simp_all

section \<open>Lookup, insertion and the conditional's solve\<close>

lemma lookup_all_Inr:
  "lookup_all err x ks = Inr vs \<longleftrightarrow> (set ks \<subseteq> dom x \<and> vs = map (value_at x) ks)"
proof (induction ks arbitrary: vs)
  case Nil
  then show ?case by auto
next
  case (Cons k ks)
  show ?case
  proof (cases "x k")
    case None
    then show ?thesis by auto
  next
    case (Some v)
    then show ?thesis
      using Cons.IH by (cases "lookup_all err x ks") (auto simp: value_at_def)
  qed
qed

lemma lookup_all_Inl:
  "lookup_all err x ks = Inl e \<Longrightarrow> \<exists>k\<in>set ks. x k = None \<and> e = err k"
proof (induction ks)
  case Nil
  then show ?case by simp
next
  case (Cons k ks)
  then show ?case
    by (cases "x k"; cases "lookup_all err x ks") auto
qed

lemma insert_frontals_Inr:
  "insert_frontals d res ks v = Inr x \<Longrightarrow>
     distinct ks \<and> set ks \<inter> dom res = {} \<and> dom x = dom res \<union> set ks \<and>
     (\<forall>k. k \<notin> set ks \<longrightarrow> x k = res k)"
proof (induction ks arbitrary: res v)
  case Nil
  then show ?case by simp
next
  case (Cons k ks)
  from Cons.prems have knew: "k \<notin> dom res"
    and rec: "insert_frontals d (res(k \<mapsto> take (d k) v)) ks (drop (d k) v) = Inr x"
    by (auto split: if_splits)
  from Cons.IH[OF rec] knew show ?case by auto
qed

lemma insert_frontals_error:
  "insert_frontals d res ks v = Inl e \<Longrightarrow> e = DuplicateVariable \<and> (\<not> distinct ks \<or> set ks \<inter> dom res \<noteq> {})"
proof (induction ks arbitrary: res v)
  case Nil
  then show ?case by simp
next
  case (Cons k ks)
  show ?case
  proof (cases "k \<in> dom res")
    case True
    then show ?thesis using Cons.prems by auto
  next
    case False
    then have rec: "insert_frontals d (res(k \<mapsto> take (d k) v)) ks (drop (d k) v) = Inl e"
      using Cons.prems by auto
    from Cons.IH[OF rec] show ?thesis
      by (auto simp: disjoint_iff dom_def split: if_splits)
  qed
qed

lemma insert_frontals_ok:
  assumes "distinct ks" and "set ks \<inter> dom res = {}" and "sum_list (map d ks) \<le> length v"
  shows "\<exists>x. insert_frontals d res ks v = Inr x \<and>
           concat (map (value_at x) ks) = take (sum_list (map d ks)) v \<and>
           (\<forall>k\<in>set ks. length (value_at x k) = d k)"
  using assms
proof (induction ks arbitrary: res v)
  case Nil
  then show ?case by simp
next
  case (Cons k ks)
  let ?res = "res(k \<mapsto> take (d k) v)"
  have "\<exists>x. insert_frontals d ?res ks (drop (d k) v) = Inr x \<and>
           concat (map (value_at x) ks) = take (sum_list (map d ks)) (drop (d k) v) \<and>
           (\<forall>k\<in>set ks. length (value_at x k) = d k)"
    by (rule Cons.IH) (use Cons.prems in \<open>auto simp: disjoint_iff dom_def split: if_splits\<close>)
  then obtain x where x: "insert_frontals d ?res ks (drop (d k) v) = Inr x"
    and cc: "concat (map (value_at x) ks) = take (sum_list (map d ks)) (drop (d k) v)"
    and ln: "\<forall>k\<in>set ks. length (value_at x k) = d k" by blast
  have "k \<notin> set ks" using Cons.prems by simp
  then have "x k = ?res k" using insert_frontals_Inr[OF x] by blast
  then have xk: "value_at x k = take (d k) v" by (simp add: value_at_def)
  have knew: "k \<notin> dom res" using Cons.prems by auto
  have "insert_frontals d res (k # ks) v = Inr x" using knew x by auto
  moreover have "concat (map (value_at x) (k # ks)) = take (sum_list (map d (k # ks))) v"
    using xk cc by (simp add: take_add)
  moreover have "\<forall>k'\<in>set (k # ks). length (value_at x k') = d k'"
    using ln xk Cons.prems by auto
  ultimately show ?case by blast
qed

lemma length_subtract_parents:
  "length b = n \<Longrightarrow> \<forall>Sj\<in>set Ss. length Sj = n \<Longrightarrow> length (subtract_parents b Ss vs) = n"
  by (induction b Ss vs rule: subtract_parents.induct) (auto simp: vec_sub_def mat_vec_def)

lemma backSubstituteUpper_correct:
  assumes "length Rm = n" and "length b = n"
    and "list_all (\<lambda>row. length row = n) Rm"
    and "list_all (\<lambda>i. list_all (\<lambda>j. Rm ! i ! j = 0) [0..<i] \<and> Rm ! i ! i \<noteq> 0) [0..<n]"
  shows "mat_vec Rm (backSubstituteUpper Rm b) = b"
proof -
  have "map (\<lambda>r. dot r ([] @ backSubstituteUpper_from 0 Rm b)) Rm = b"
    by (rule upper_correct) (use assms in \<open>auto simp: list_all_iff\<close>)
  then show ?thesis by (simp add: mat_vec_def backSubstituteUpper_def)
qed

lemma length_backSubstituteUpper:
  "length Rm = length b \<Longrightarrow> length (backSubstituteUpper Rm b) = length b"
  by (simp add: backSubstituteUpper_def upper_len)

section \<open>The reverse traversal of optimize\<close>

lemma solve_Inr_dom:
  "solve cg s = Inr x \<Longrightarrow> dom x = set (frontals cg) \<and> distinct (frontals cg) \<and> set (parents cg) \<subseteq> dom s"
  unfolding solve_def
  by (auto split: sum.splits if_splits dest!: insert_frontals_Inr simp: lookup_all_Inr)

lemma solve_ok:
  assumes wf: "wf_conditional cg" and dist: "distinct (frontals cg)"
    and par: "set (parents cg) \<subseteq> dom s"
    and dims: "\<forall>p\<in>set (parents cg). length (value_at s p) = getDim cg p"
  shows "\<exists>x. solve cg s = Inr x \<and> dom x = set (frontals cg) \<and>
           frontal_vector x cg = backSubstituteUpper (get_R cg) (reduced_rhs s cg) \<and>
           mat_vec (get_R cg) (frontal_vector x cg) = reduced_rhs s cg \<and>
           (\<forall>k\<in>set (frontals cg). length (value_at x k) = getDim cg k)"
proof -
  define n where "n = sum_list (map (getDim cg) (frontals cg))"
  define vs where "vs = map (value_at s) (parents cg)"
  define b where "b = subtract_parents (get_d cg) (get_S cg) vs"
  define v where "v = backSubstituteUpper (get_R cg) b"
  from wf have Rn: "length (get_R cg) = n" and rows: "list_all (\<lambda>row. length row = n) (get_R cg)"
    and tri: "list_all (\<lambda>i. list_all (\<lambda>j. get_R cg ! i ! j = 0) [0..<i] \<and> get_R cg ! i ! i \<noteq> 0) [0..<n]"
    and dn: "length (get_d cg) = n"
    and S: "list_all2 (\<lambda>p Sj. length Sj = n \<and> list_all (\<lambda>row. length row = getDim cg p) Sj) (parents cg) (get_S cg)"
    by (simp_all add: wf_conditional_def Let_def n_def)
  have Srows: "\<forall>Sj\<in>set (get_S cg). length Sj = n"
    using S by (auto simp: list_all2_conv_all_nth in_set_conv_nth)
  have bn: "length b = n" unfolding b_def by (rule length_subtract_parents[OF dn Srows])
  have vn: "length v = n" unfolding v_def using Rn bn by (simp add: length_backSubstituteUpper)
  have look: "lookup_all MissingParent s (parents cg) = Inr vs"
    using par by (simp add: lookup_all_Inr vs_def)
  have ok: "list_all2 (\<lambda>k v. length v = getDim cg k) (parents cg) vs"
    using dims by (simp add: vs_def list_all2_map2 list_all2_same)
  have sv: "solve cg s = insert_frontals (getDim cg) Map.empty (frontals cg) v"
    by (simp add: solve_def look ok v_def b_def)
  obtain x where x: "insert_frontals (getDim cg) Map.empty (frontals cg) v = Inr x"
    and cc: "concat (map (value_at x) (frontals cg)) = take n v"
    and ln: "\<forall>k\<in>set (frontals cg). length (value_at x k) = getDim cg k"
    using insert_frontals_ok[of "frontals cg" Map.empty "getDim cg" v] dist vn
    by (auto simp: n_def)
  have fv: "frontal_vector x cg = v" using cc vn by (simp add: frontal_vector_def)
  have rr: "reduced_rhs s cg = b" by (simp add: reduced_rhs_def b_def vs_def)
  have "mat_vec (get_R cg) v = b"
    unfolding v_def by (rule backSubstituteUpper_correct[OF Rn bn rows tri])
  then show ?thesis
    using sv x fv rr ln insert_frontals_Inr[OF x] by (auto simp: v_def)
qed

lemma optimize_loop_append:
  "optimize_loop (xs @ ys) s =
     (case optimize_loop xs s of Inl e \<Rightarrow> Inl e | Inr s' \<Rightarrow> optimize_loop ys s')"
  by (induction xs arbitrary: s) (auto split: sum.splits)

lemma optimize_Cons:
  "optimize (cg # bn) partial =
     (case optimize bn partial of
        Inl e \<Rightarrow> Inl e
      | Inr s \<Rightarrow> (case solve cg s of Inl e \<Rightarrow> Inl e | Inr x \<Rightarrow> VectorValues_insert s x))"
  by (auto simp: optimize_def optimize_loop_append split: sum.splits)

lemma frontal_keys_Cons: "frontal_keys (cg # bn) = set (frontals cg) \<union> frontal_keys bn"
  by (simp add: frontal_keys_def)

lemma frontal_keys_Nil: "frontal_keys [] = {}"
  by (simp add: frontal_keys_def)

lemma frontal_keys_append: "frontal_keys (xs @ ys) = frontal_keys xs \<union> frontal_keys ys"
  by (auto simp add: frontal_keys_def)

lemma set_concat_frontals: "set (concat (map frontals bn)) = frontal_keys bn"
  by (auto simp: frontal_keys_def)

lemma parents_resolvable_subset:
  "parents_resolvable bn S \<Longrightarrow> cg \<in> set bn \<Longrightarrow> set (parents cg) \<subseteq> S \<union> frontal_keys bn"
  by (induction bn) (auto simp: frontal_keys_Cons list_all_iff)

lemma satisfies_cong:
  "(\<forall>k\<in>set (frontals cg) \<union> set (parents cg). s' k = s k) \<Longrightarrow> satisfies s' cg = satisfies s cg"
proof -
  assume a: "\<forall>k\<in>set (frontals cg) \<union> set (parents cg). s' k = s k"
  then have f: "map (value_at s') (frontals cg) = map (value_at s) (frontals cg)"
    and p: "map (value_at s') (parents cg) = map (value_at s) (parents cg)"
    by (auto simp: value_at_def)
  show ?thesis by (simp only: satisfies_def frontal_vector_def reduced_rhs_def f p)
qed

lemma frontal_vector_cong:
  "(\<forall>k\<in>set (frontals cg). s' k = s k) \<Longrightarrow> frontal_vector s' cg = frontal_vector s cg"
proof -
  assume "\<forall>k\<in>set (frontals cg). s' k = s k"
  then have "map (value_at s') (frontals cg) = map (value_at s) (frontals cg)"
    by (auto simp: value_at_def)
  then show ?thesis by (simp only: frontal_vector_def)
qed

lemma reduced_rhs_cong:
  "(\<forall>k\<in>set (parents cg). s' k = s k) \<Longrightarrow> reduced_rhs s' cg = reduced_rhs s cg"
proof -
  assume "\<forall>k\<in>set (parents cg). s' k = s k"
  then have "map (value_at s') (parents cg) = map (value_at s) (parents cg)"
    by (auto simp: value_at_def)
  then show ?thesis by (simp only: reduced_rhs_def)
qed

lemma optimize_ok:
  assumes "list_all wf_conditional bn"
    and "consistent_dims dims bn partial"
    and "distinct (concat (map frontals bn))"
    and "dom partial \<inter> frontal_keys bn = {}"
    and "parents_resolvable bn (dom partial)"
  shows "\<exists>soln. optimize bn partial = Inr soln \<and> dom soln = dom partial \<union> frontal_keys bn \<and>
           (\<forall>k\<in>dom partial. soln k = partial k) \<and>
           (\<forall>k v. soln k = Some v \<longrightarrow> length v = dims k) \<and>
           (\<forall>cg\<in>set bn. satisfies soln cg)"
  using assms
proof (induction bn)
  case Nil
  then show ?case by (simp add: optimize_def frontal_keys_Nil consistent_dims_def)
next
  case (Cons cg bn)
  have "\<exists>soln. optimize bn partial = Inr soln \<and> dom soln = dom partial \<union> frontal_keys bn \<and>
           (\<forall>k\<in>dom partial. soln k = partial k) \<and>
           (\<forall>k v. soln k = Some v \<longrightarrow> length v = dims k) \<and>
           (\<forall>cg\<in>set bn. satisfies soln cg)"
    by (rule Cons.IH) (use Cons.prems in \<open>auto simp: consistent_dims_def frontal_keys_Cons\<close>)
  then obtain s where s: "optimize bn partial = Inr s"
    and doms: "dom s = dom partial \<union> frontal_keys bn"
    and keep: "\<forall>k\<in>dom partial. s k = partial k"
    and len: "\<forall>k v. s k = Some v \<longrightarrow> length v = dims k"
    and sat: "\<forall>cg\<in>set bn. satisfies s cg" by blast
  have wf: "wf_conditional cg" using Cons.prems(1) by simp
  have dist: "distinct (frontals cg)" using Cons.prems(3) by simp
  have fresh: "set (frontals cg) \<inter> dom s = {}"
    using Cons.prems(3,4) doms by (auto simp: frontal_keys_Cons frontal_keys_def)
  have par: "set (parents cg) \<subseteq> dom s"
    using Cons.prems(5) doms by (auto simp: list_all_iff)
  have gd: "\<forall>k\<in>set (frontals cg) \<union> set (parents cg). getDim cg k = dims k"
    using Cons.prems(2) by (auto simp: consistent_dims_def list_all_iff)
  have pdims: "\<forall>p\<in>set (parents cg). length (value_at s p) = getDim cg p"
  proof
    fix p assume p: "p \<in> set (parents cg)"
    then obtain v where "s p = Some v" using par by auto
    then show "length (value_at s p) = getDim cg p"
      using len gd p by (simp add: value_at_def)
  qed
  obtain x where x: "solve cg s = Inr x" and domx: "dom x = set (frontals cg)"
    and fv: "frontal_vector x cg = backSubstituteUpper (get_R cg) (reduced_rhs s cg)"
    and mv: "mat_vec (get_R cg) (frontal_vector x cg) = reduced_rhs s cg"
    and xl: "\<forall>k\<in>set (frontals cg). length (value_at x k) = getDim cg k"
    using solve_ok[OF wf dist par pdims] by blast
  have ins: "VectorValues_insert s x = Inr (s ++ x)"
    using fresh domx by (auto simp: VectorValues_insert_def)
  have res: "optimize (cg # bn) partial = Inr (s ++ x)"
    by (simp add: optimize_Cons s x ins)
  have old: "(s ++ x) k = s k" if "k \<in> dom s" for k
  proof -
    have "k \<notin> dom x" using that fresh domx by auto
    then show ?thesis by (simp add: map_add_dom_app_simps)
  qed
  have new: "\<And>k. k \<in> set (frontals cg) \<Longrightarrow> (s ++ x) k = x k"
    using domx by (auto simp: map_add_dom_app_simps)
  have d: "dom (s ++ x) = dom partial \<union> frontal_keys (cg # bn)"
    using doms domx by (auto simp: frontal_keys_Cons)
  have k: "\<forall>k\<in>dom partial. (s ++ x) k = partial k"
    using keep old doms by auto
  have l: "\<forall>k v. (s ++ x) k = Some v \<longrightarrow> length v = dims k"
  proof (intro allI impI)
    fix k v assume kv: "(s ++ x) k = Some v"
    show "length v = dims k"
    proof (cases "k \<in> set (frontals cg)")
      case True
      then have "x k = Some v" using new kv by simp
      then have "value_at x k = v" by (simp add: value_at_def)
      then show ?thesis using xl gd True by auto
    next
      case False
      then have "s k = Some v" using kv domx by (auto simp: map_add_Some_iff)
      then show ?thesis using len by blast
    qed
  qed
  have sat_old: "satisfies (s ++ x) c" if c: "c \<in> set bn" for c
  proof -
    have "set (frontals c) \<subseteq> dom s" using c doms by (auto simp: frontal_keys_def)
    moreover have "set (parents c) \<subseteq> dom s"
      using parents_resolvable_subset[of bn "dom partial" c] Cons.prems(5) c doms by auto
    ultimately have "\<forall>k\<in>set (frontals c) \<union> set (parents c). (s ++ x) k = s k"
      using old by blast
    then show ?thesis using satisfies_cong[of c "s ++ x" s] sat c by simp
  qed
  have sat_new: "satisfies (s ++ x) cg"
  proof -
    have "frontal_vector (s ++ x) cg = frontal_vector x cg"
      by (rule frontal_vector_cong) (use new in blast)
    moreover have "reduced_rhs (s ++ x) cg = reduced_rhs s cg"
      by (rule reduced_rhs_cong) (use old par in blast)
    ultimately show ?thesis using fv mv by (simp add: satisfies_def)
  qed
  show ?case using res d k l sat_old sat_new by auto
qed

section \<open>Claims on the determinant engine\<close>

lemma foldl_logDeterminant_step:
  "foldl logDeterminant_step a bn = a + (\<Sum>cg\<leftarrow>bn. logDeterminant_step 0 cg)"
proof (induction bn arbitrary: a)
  case Nil
  then show ?case by simp
next
  case (Cons cg bn)
  have "logDeterminant_step a cg = a + logDeterminant_step 0 cg"
    by (simp add: logDeterminant_step_def split: option.splits)
  then show ?case using Cons.IH[of "logDeterminant_step a cg"] by simp
qed

lemma logDeterminant_sum: "logDeterminant bn = (\<Sum>cg\<leftarrow>bn. logDeterminant_step 0 cg)"
  by (simp add: logDeterminant_def foldl_logDeterminant_step)

lemma logDeterminant_step_whitened:
  "logDeterminant_step 0 cg = (\<Sum>r\<leftarrow>whitened_diagonal cg. ln r)"
  by (simp add: logDeterminant_step_def whitened_diagonal_def whitenInPlace_def
      split: option.splits)

text \<open>
  C2: \<open>logDeterminant\<close> is the sum, over the conditionals, of the logarithms of the
  whitened R-diagonal entries (raw entries where there is no noise model). Consequently,
  giving a single-row conditional with positive diagonal entry \<open>r\<close> and no noise model a
  noise model of scale \<open>sigma > 0\<close> changes \<open>logDeterminant\<close> by \<open>- ln sigma\<close>; with
  \<open>sigma = 2\<close>, by \<open>- ln 2\<close>.
\<close>

theorem logDeterminant_sum_of_whitened_logs:
  "logDeterminant bn = (\<Sum>cg\<leftarrow>bn. \<Sum>r\<leftarrow>whitened_diagonal cg. ln r) \<and>
   (0 < r \<and> 0 < sigma \<and> get_R cg = [[r]] \<and> get_model cg = None \<longrightarrow>
      logDeterminant (pre @ cg\<lparr>get_model := Some [sigma]\<rparr> # post) =
      logDeterminant (pre @ cg # post) - ln sigma)"
proof (intro conjI impI)
  show "logDeterminant bn = (\<Sum>cg\<leftarrow>bn. \<Sum>r\<leftarrow>whitened_diagonal cg. ln r)"
    by (simp add: logDeterminant_sum logDeterminant_step_whitened)
next
  assume a: "0 < r \<and> 0 < sigma \<and> get_R cg = [[r]] \<and> get_model cg = None"
  then have plain: "logDeterminant_step 0 cg = ln r"
    by (simp add: logDeterminant_step_def diagonal_def)
  have "logDeterminant_step 0 (cg\<lparr>get_model := Some [sigma]\<rparr>) = ln (r / sigma)"
    using a by (simp add: logDeterminant_step_def diagonal_def whitenInPlace_def)
  also have "\<dots> = ln r - ln sigma" using a by (simp add: ln_divide_pos)
  finally show "logDeterminant (pre @ cg\<lparr>get_model := Some [sigma]\<rparr> # post) =
      logDeterminant (pre @ cg # post) - ln sigma"
    using plain by (simp add: logDeterminant_sum)
qed

theorem logDeterminant_whitening_witness:
  "logDeterminant [condA, condB] = ln 2 \<and>
   logDeterminant [condA\<lparr>get_model := Some [2]\<rparr>, condB] = logDeterminant [condA, condB] - ln 2 \<and>
   logDeterminant [condA\<lparr>get_model := Some [2]\<rparr>, condB] = 0"
proof -
  have h: "(0::real) < 2 \<and> (0::real) < 2 \<and> get_R condA = [[2]] \<and> get_model condA = None"
    by (simp add: condA_def)
  have plain: "logDeterminant [condA, condB] = ln 2"
    using logDeterminant_sum_of_whitened_logs[of "[condA, condB]" 2 2 condA "[]" "[]"]
    by (simp add: whitened_diagonal_def condA_def condB_def diagonal_def)
  have "logDeterminant ([] @ condA\<lparr>get_model := Some [2]\<rparr> # [condB]) =
      logDeterminant ([] @ condA # [condB]) - ln 2"
    using logDeterminant_sum_of_whitened_logs[of "[]" 2 2 condA "[]" "[condB]"] h by blast
  then show ?thesis using plain by simp
qed

text \<open>
  C3: for every network, \<open>determinant\<close> is the exponential of \<open>logDeterminant\<close>; no
  condition on the network is needed.
\<close>

theorem determinant_exp_logDeterminant:
  "determinant bn = exp (logDeterminant bn)"
  by (simp add: determinant_def)

text \<open>
  C10: for the network of zero conditionals \<open>logDeterminant\<close> is 0 and \<open>determinant\<close> is 1;
  both are plain values, no error is possible.
\<close>

theorem empty_network_determinant:
  "logDeterminant [] = 0 \<and> determinant [] = 1"
  by (simp add: determinant_def logDeterminant_def)

lemma exp_sum_ln:
  "list_all (\<lambda>r. 0 < r) rs \<Longrightarrow> exp (\<Sum>r\<leftarrow>rs. ln r) = prod_list (rs :: real list)"
proof (induction rs)
  case Nil
  then show ?case by simp
next
  case (Cons a rs)
  have "exp (ln a + (\<Sum>r\<leftarrow>rs. ln r)) = exp (ln a) * exp (\<Sum>r\<leftarrow>rs. ln r)"
    by (rule exp_add)
  then show ?case using Cons by simp
qed

lemma exp_sum_list:
  "exp (sum_list (map f xs)) = prod_list (map (\<lambda>x. exp (f x :: real)) xs)"
proof (induction xs)
  case Nil
  then show ?case by simp
next
  case (Cons x xs)
  have "exp (f x + sum_list (map f xs)) = exp (f x) * exp (sum_list (map f xs))"
    by (rule exp_add)
  then show ?case using Cons by simp
qed

text \<open>
  Determinant factorization (spec, section 8): when every (whitened) R-diagonal entry is
  positive, \<open>determinant\<close> is the product of these entries over all conditionals; for the
  chain of conditionals A and B it is \<open>2 * 1 = 2\<close>.
\<close>

lemma determinant_product_of_diagonals:
  assumes "list_all (\<lambda>cg. list_all (\<lambda>r. 0 < r) (whitened_diagonal cg)) bn"
  shows "determinant bn = (\<Prod>cg\<leftarrow>bn. prod_list (whitened_diagonal cg))"
proof -
  have "exp (logDeterminant_step 0 cg) = prod_list (whitened_diagonal cg)" if "cg \<in> set bn" for cg
    using assms that by (simp add: list_all_iff logDeterminant_step_whitened exp_sum_ln)
  then have "map (\<lambda>cg. exp (logDeterminant_step 0 cg)) bn =
      map (\<lambda>cg. prod_list (whitened_diagonal cg)) bn"
    by simp
  then show ?thesis
    by (simp only: determinant_def logDeterminant_sum exp_sum_list)
qed

lemma determinant_chain:
  "determinant [condA, condB] = 2 \<and> logDeterminant [condA, condB] = ln 2"
proof -
  have pos: "list_all (\<lambda>cg. list_all (\<lambda>r. 0 < r) (whitened_diagonal cg)) [condA, condB]"
    by (simp add: whitened_diagonal_def diagonal_def condA_def condB_def)
  have "determinant [condA, condB] = 2"
    using determinant_product_of_diagonals[OF pos]
    by (simp add: whitened_diagonal_def diagonal_def condA_def condB_def)
  moreover have "logDeterminant [condA, condB] = ln 2"
    by (simp add: logDeterminant_def logDeterminant_step_def diagonal_def condA_def condB_def)
  ultimately show ?thesis by simp
qed

section \<open>Claims on the back-substitution solve\<close>

text \<open>
  C1: for a network that keeps the invariants of the data model (well-formed conditionals,
  one block dimension per key, no repeated frontal key, no frontal key among the supplied
  keys) and whose parents are all resolvable (frontals of later positions, or supplied),
  \<open>optimize\<close> returns an assignment; its keys are the supplied keys and all frontal keys,
  the supplied values are kept, and for every conditional the frontal blocks are
  \<open>x\<^sub>f = R\<inverse> (d - \<Sum>\<^sub>j S\<^sub>j x\<^sub>p\<^sub>j)\<close>: the triangular solve of the reduced right-hand side,
  with \<open>R x\<^sub>f\<close> equal to it. For the chain of conditionals A and B, \<open>optimize()\<close> yields
  \<open>x2 = 3\<close> and \<open>x1 = 1\<close>.
\<close>

theorem optimize_solves_every_conditional:
  assumes "list_all wf_conditional bn"
    and "consistent_dims dims bn partialAssignment"
    and "distinct (concat (map frontals bn))"
    and "dom partialAssignment \<inter> frontal_keys bn = {}"
    and "parents_resolvable bn (dom partialAssignment)"
  shows "(\<exists>soln. optimize bn partialAssignment = Inr soln \<and>
            dom soln = dom partialAssignment \<union> frontal_keys bn \<and>
            (\<forall>k\<in>dom partialAssignment. soln k = partialAssignment k) \<and>
            (\<forall>cg\<in>set bn. satisfies soln cg)) \<and>
         optimize0 [condA, condB] = Inr [2 \<mapsto> [3], 1 \<mapsto> [1]]"
proof
  show "\<exists>soln. optimize bn partialAssignment = Inr soln \<and>
            dom soln = dom partialAssignment \<union> frontal_keys bn \<and>
            (\<forall>k\<in>dom partialAssignment. soln k = partialAssignment k) \<and>
            (\<forall>cg\<in>set bn. satisfies soln cg)"
    using optimize_ok[OF assms] by blast
  show "optimize0 [condA, condB] = Inr [2 \<mapsto> [3], 1 \<mapsto> [1]]"
    by (simp add: optimize0_def optimize_def solve_def condA_def condB_def
        VectorValues_insert_def backSubstituteUpper_def dot_def vec_sub_def mat_vec_def)
qed

theorem optimize_solves_chain_witness:
  "\<exists>soln. optimize [condA, condB] Map.empty = Inr soln \<and> dom soln = {1, 2} \<and>
     soln 2 = Some [3] \<and> soln 1 = Some [1] \<and>
     satisfies soln condA \<and> satisfies soln condB \<and>
     mat_vec (get_R condA) (frontal_vector soln condA) = reduced_rhs soln condA"
proof -
  have wf: "list_all wf_conditional [condA, condB]"
    by (simp add: wf_conditional_def condA_def condB_def)
  have cd: "consistent_dims (\<lambda>k. 1) [condA, condB] Map.empty"
    by (simp add: consistent_dims_def condA_def condB_def)
  have di: "distinct (concat (map frontals [condA, condB]))"
    by (simp add: condA_def condB_def)
  have dj: "dom (Map.empty :: VectorValues) \<inter> frontal_keys [condA, condB] = {}"
    by simp
  have pr: "parents_resolvable [condA, condB] (dom (Map.empty :: VectorValues))"
    by (simp add: frontal_keys_def condA_def condB_def)
  from optimize_solves_every_conditional[OF wf cd di dj pr]
  obtain soln where s: "optimize [condA, condB] Map.empty = Inr soln"
    and d: "dom soln = dom (Map.empty :: VectorValues) \<union> frontal_keys [condA, condB]"
    and sat: "\<forall>cg\<in>set [condA, condB]. satisfies soln cg"
    and v: "optimize0 [condA, condB] = Inr [2 \<mapsto> [3], 1 \<mapsto> [1]]"
    by blast
  have "soln = [2 \<mapsto> [3], 1 \<mapsto> [1]]" using s v by (simp add: optimize0_def)
  moreover have "dom soln = {1, 2}" using d by (auto simp: frontal_keys_def condA_def condB_def)
  ultimately show ?thesis using s sat by (auto simp: satisfies_def)
qed

text \<open>
  C8: for the network of zero conditionals, \<open>optimize\<close> returns the supplied partial
  assignment unchanged (whether empty or not).
\<close>

theorem optimize_empty_network:
  "optimize [] partialAssignment = Inr partialAssignment"
  by (simp add: optimize_def)

section \<open>Errors of the reverse traversal\<close>

lemma optimize_append:
  "optimize (pre @ post) partial =
     (case optimize post partial of Inl e \<Rightarrow> Inl e | Inr s \<Rightarrow> optimize_loop (rev pre) s)"
  by (simp add: optimize_def optimize_loop_append)

lemma VectorValues_insert_Inr:
  "VectorValues_insert s x = Inr s' \<longleftrightarrow> dom s \<inter> dom x = {} \<and> s' = s ++ x"
  by (auto simp: VectorValues_insert_def)

lemma VectorValues_insert_Inl:
  "VectorValues_insert s x = Inl e \<longleftrightarrow> dom s \<inter> dom x \<noteq> {} \<and> e = DuplicateVariable"
  by (auto simp: VectorValues_insert_def)

lemma all_less_Suc_split: "(\<forall>i<Suc n. P i) \<longleftrightarrow> P 0 \<and> (\<forall>i<n. P (Suc i))"
  using less_Suc_eq_0_disj by auto

lemma parents_resolvable_nth:
  "parents_resolvable bn S \<longleftrightarrow>
     (\<forall>i<length bn. \<forall>p\<in>set (parents (bn ! i)). p \<in> S \<union> frontal_keys (drop (Suc i) bn))"
proof (induction bn)
  case Nil
  then show ?case by simp
next
  case (Cons cg bn)
  have "(\<forall>i<length (cg # bn). \<forall>p\<in>set (parents ((cg # bn) ! i)). p \<in> S \<union> frontal_keys (drop (Suc i) (cg # bn)))
      \<longleftrightarrow> (\<forall>p\<in>set (parents cg). p \<in> S \<union> frontal_keys bn) \<and>
          (\<forall>i<length bn. \<forall>p\<in>set (parents (bn ! i)). p \<in> S \<union> frontal_keys (drop (Suc i) bn))"
    by (simp add: all_less_Suc_split)
  then show ?case using Cons.IH by (simp add: list_all_iff)
qed

text \<open>What a returned assignment tells about the network.\<close>

lemma optimize_Inr:
  "optimize bn partial = Inr s \<Longrightarrow>
     dom s = dom partial \<union> frontal_keys bn \<and> (\<forall>k\<in>dom partial. s k = partial k) \<and>
     distinct (concat (map frontals bn)) \<and> dom partial \<inter> frontal_keys bn = {} \<and>
     parents_resolvable bn (dom partial)"
proof (induction bn arbitrary: s)
  case Nil
  then show ?case by (simp add: optimize_def frontal_keys_Nil)
next
  case (Cons cg bn)
  from Cons.prems obtain s' x where s': "optimize bn partial = Inr s'"
    and x: "solve cg s' = Inr x" and ins: "VectorValues_insert s' x = Inr s"
    by (auto simp: optimize_Cons split: sum.splits)
  from Cons.IH[OF s'] have d': "dom s' = dom partial \<union> frontal_keys bn"
    and k': "\<forall>k\<in>dom partial. s' k = partial k"
    and di': "distinct (concat (map frontals bn))"
    and dj': "dom partial \<inter> frontal_keys bn = {}"
    and pr': "parents_resolvable bn (dom partial)" by blast+
  from solve_Inr_dom[OF x] have dx: "dom x = set (frontals cg)"
    and dc: "distinct (frontals cg)" and pc: "set (parents cg) \<subseteq> dom s'" by blast+
  from ins have fresh: "dom s' \<inter> dom x = {}" and s: "s = s' ++ x"
    by (simp_all add: VectorValues_insert_Inr)
  have "dom s = dom partial \<union> frontal_keys (cg # bn)"
    using s d' dx by (auto simp: frontal_keys_Cons)
  moreover have "\<forall>k\<in>dom partial. s k = partial k"
  proof
    fix k assume k: "k \<in> dom partial"
    then have "k \<notin> dom x" using fresh d' by auto
    then show "s k = partial k" using k k' s by (simp add: map_add_dom_app_simps)
  qed
  moreover have "distinct (concat (map frontals (cg # bn)))"
    using dc di' fresh d' dx by (auto simp: frontal_keys_def)
  moreover have "dom partial \<inter> frontal_keys (cg # bn) = {}"
    using dj' fresh d' dx by (auto simp: frontal_keys_Cons)
  moreover have "parents_resolvable (cg # bn) (dom partial)"
    using pr' pc d' by (auto simp: list_all_iff)
  ultimately show ?case by blast
qed

lemma solve_missing_parent:
  assumes "\<not> set (parents cg) \<subseteq> dom s"
  shows "\<exists>q\<in>set (parents cg). q \<notin> dom s \<and> solve cg s = Inl (MissingParent q)"
proof -
  have "\<not> (\<exists>vs. lookup_all MissingParent s (parents cg) = Inr vs)"
    using assms by (simp add: lookup_all_Inr)
  then obtain e where e: "lookup_all MissingParent s (parents cg) = Inl e"
    by (cases "lookup_all MissingParent s (parents cg)") auto
  from lookup_all_Inl[OF e] obtain q where "q \<in> set (parents cg)" "s q = None" "e = MissingParent q"
    by blast
  then show ?thesis using e by (auto simp: solve_def)
qed

lemma optimize_unresolvable:
  assumes "\<not> parents_resolvable bn (dom partial)"
    and "list_all wf_conditional bn"
    and "consistent_dims dims bn partial"
    and "distinct (concat (map frontals bn))"
    and "dom partial \<inter> frontal_keys bn = {}"
  shows "\<exists>j q. j < length bn \<and> q \<in> set (parents (bn ! j)) \<and>
           q \<notin> dom partial \<union> frontal_keys (drop (Suc j) bn) \<and>
           optimize bn partial = Inl (MissingParent q)"
  using assms
proof (induction bn)
  case Nil
  then show ?case by simp
next
  case (Cons cg bn)
  have wf: "list_all wf_conditional bn" and cd: "consistent_dims dims bn partial"
    and di: "distinct (concat (map frontals bn))" and dj: "dom partial \<inter> frontal_keys bn = {}"
    using Cons.prems by (auto simp: consistent_dims_def frontal_keys_Cons)
  show ?case
  proof (cases "parents_resolvable bn (dom partial)")
    case True
    from optimize_ok[OF wf cd di dj True] obtain s where s: "optimize bn partial = Inr s"
      and ds: "dom s = dom partial \<union> frontal_keys bn" by blast
    have "\<not> set (parents cg) \<subseteq> dom s"
      using Cons.prems(1) True ds by (auto simp: list_all_iff)
    from solve_missing_parent[OF this] obtain q where q: "q \<in> set (parents cg)" "q \<notin> dom s"
      and e: "solve cg s = Inl (MissingParent q)" by blast
    have "optimize (cg # bn) partial = Inl (MissingParent q)"
      by (simp add: optimize_Cons s e)
    moreover have "q \<in> set (parents ((cg # bn) ! 0))" using q by simp
    moreover have "q \<notin> dom partial \<union> frontal_keys (drop (Suc 0) (cg # bn))" using q ds by simp
    ultimately show ?thesis by (intro exI[of _ 0] exI[of _ q]) simp
  next
    case False
    from Cons.IH[OF False wf cd di dj] obtain j q where j: "j < length bn"
      and q: "q \<in> set (parents (bn ! j))" "q \<notin> dom partial \<union> frontal_keys (drop (Suc j) bn)"
      and e: "optimize bn partial = Inl (MissingParent q)" by blast
    have "optimize (cg # bn) partial = Inl (MissingParent q)"
      by (simp add: optimize_Cons e)
    then show ?thesis using j q by (intro exI[of _ "Suc j"] exI[of _ q]) simp
  qed
qed

lemma insert_frontals_duplicate:
  "\<not> distinct ks \<Longrightarrow> insert_frontals d res ks v = Inl DuplicateVariable"
proof -
  assume nd: "\<not> distinct ks"
  show ?thesis
  proof (cases "insert_frontals d res ks v")
    case (Inl e)
    then show ?thesis using insert_frontals_error[OF Inl] by simp
  next
    case (Inr x)
    then show ?thesis using insert_frontals_Inr[OF Inr] nd by simp
  qed
qed

lemma solve_duplicate_frontal:
  assumes "set (parents cg) \<subseteq> dom s"
    and "\<forall>p\<in>set (parents cg). length (value_at s p) = getDim cg p"
    and "\<not> distinct (frontals cg)"
  shows "solve cg s = Inl DuplicateVariable"
proof -
  have look: "lookup_all MissingParent s (parents cg) = Inr (map (value_at s) (parents cg))"
    using assms(1) by (simp add: lookup_all_Inr)
  have ok: "list_all2 (\<lambda>k v. length v = getDim cg k) (parents cg) (map (value_at s) (parents cg))"
    using assms(2) by (simp add: list_all2_map2 list_all2_same)
  show ?thesis
    by (simp add: solve_def look ok insert_frontals_duplicate[OF assms(3)])
qed

lemma optimize_duplicate:
  assumes "list_all wf_conditional bn"
    and "consistent_dims dims bn partial"
    and "parents_resolvable bn (dom partial)"
    and "\<not> distinct (concat (map frontals bn)) \<or> dom partial \<inter> frontal_keys bn \<noteq> {}"
  shows "optimize bn partial = Inl DuplicateVariable"
  using assms
proof (induction bn)
  case Nil
  then show ?case by (simp add: frontal_keys_Nil)
next
  case (Cons cg bn)
  have wf: "list_all wf_conditional bn" and cd: "consistent_dims dims bn partial"
    and pr: "parents_resolvable bn (dom partial)"
    using Cons.prems by (auto simp: consistent_dims_def)
  show ?case
  proof (cases "\<not> distinct (concat (map frontals bn)) \<or> dom partial \<inter> frontal_keys bn \<noteq> {}")
    case True
    then have "optimize bn partial = Inl DuplicateVariable" by (rule Cons.IH[OF wf cd pr])
    then show ?thesis by (simp add: optimize_Cons)
  next
    case False
    then have di: "distinct (concat (map frontals bn))" and dj: "dom partial \<inter> frontal_keys bn = {}"
      by auto
    from optimize_ok[OF wf cd di dj pr] obtain s where s: "optimize bn partial = Inr s"
      and ds: "dom s = dom partial \<union> frontal_keys bn"
      and len: "\<forall>k v. s k = Some v \<longrightarrow> length v = dims k" by blast
    have par: "set (parents cg) \<subseteq> dom s"
      using Cons.prems(3) ds by (auto simp: list_all_iff)
    have gd: "\<forall>k\<in>set (parents cg). getDim cg k = dims k"
      using Cons.prems(2) by (auto simp: consistent_dims_def list_all_iff)
    have pdims: "\<forall>p\<in>set (parents cg). length (value_at s p) = getDim cg p"
    proof
      fix p assume p: "p \<in> set (parents cg)"
      then obtain v where "s p = Some v" using par by auto
      then show "length (value_at s p) = getDim cg p"
        using len gd p by (simp add: value_at_def)
    qed
    show ?thesis
    proof (cases "distinct (frontals cg)")
      case False
      then show ?thesis
        by (simp add: optimize_Cons s solve_duplicate_frontal[OF par pdims])
    next
      case True
      have wfc: "wf_conditional cg" using Cons.prems(1) by simp
      from solve_ok[OF wfc True par pdims] obtain x where x: "solve cg s = Inr x"
        and dx: "dom x = set (frontals cg)" by blast
      have "set (frontals cg) \<inter> (dom partial \<union> frontal_keys bn) \<noteq> {}"
        using Cons.prems(4) True di dj by (auto simp: frontal_keys_Cons frontal_keys_def)
      then have "dom s \<inter> dom x \<noteq> {}" using ds dx by auto
      then have "VectorValues_insert s x = Inl DuplicateVariable"
        by (simp add: VectorValues_insert_def)
      then show ?thesis by (simp add: optimize_Cons s x)
    qed
  qed
qed

lemma optimize_insert_present:
  assumes "optimize post partial = Inr s" and "solve cg s = Inr x" and "dom s \<inter> dom x \<noteq> {}"
  shows "optimize (pre @ cg # post) partial = Inl DuplicateVariable"
proof -
  have "optimize (cg # post) partial = Inl DuplicateVariable"
    using assms by (simp add: optimize_Cons VectorValues_insert_def)
  then show ?thesis by (simp add: optimize_append)
qed

lemma frontal_keys_rev: "frontal_keys (rev bn) = frontal_keys bn"
  by (simp add: frontal_keys_def)

lemma distinct_frontals_append:
  "distinct (concat (map frontals (xs @ ys))) \<longleftrightarrow>
     distinct (concat (map frontals xs)) \<and> distinct (concat (map frontals ys)) \<and>
     frontal_keys xs \<inter> frontal_keys ys = {}"
  by (auto simp: frontal_keys_def)

lemma distinct_frontals_rev:
  "distinct (concat (map frontals (rev (bn :: GaussianBayesNet)))) \<longleftrightarrow>
     distinct (concat (map frontals bn))"
proof (induction bn)
  case Nil
  then show ?case by simp
next
  case (Cons cg bn)
  have "distinct (concat (map frontals (rev bn @ [cg]))) \<longleftrightarrow>
      distinct (concat (map frontals (rev bn))) \<and> distinct (frontals cg) \<and>
      frontal_keys (rev bn) \<inter> set (frontals cg) = {}"
    unfolding distinct_frontals_append by (simp add: frontal_keys_def)
  then show ?case using Cons.IH by (auto simp: frontal_keys_rev frontal_keys_def)
qed

lemma consistent_dims_rev:
  "consistent_dims dims (rev bn) partial \<longleftrightarrow> consistent_dims dims bn partial"
  by (simp add: consistent_dims_def list_all_iff)

text \<open>A valid network with at least one parent, reversed, has an unresolvable parent.\<close>

lemma reversed_unresolvable:
  assumes pr: "parents_resolvable bn S" and di: "distinct (concat (map frontals bn))"
    and i: "i < length bn" and p: "p \<in> set (parents (bn ! i))" and pS: "p \<notin> S"
  shows "\<not> parents_resolvable (rev bn) S"
proof -
  have later: "p \<in> frontal_keys (drop (Suc i) bn)"
    using pr i p pS by (auto simp: parents_resolvable_nth)
  have "distinct (concat (map frontals (take (Suc i) bn @ drop (Suc i) bn)))"
    using di by simp
  then have "frontal_keys (take (Suc i) bn) \<inter> frontal_keys (drop (Suc i) bn) = {}"
    unfolding distinct_frontals_append by blast
  then have notin: "p \<notin> frontal_keys (take (Suc i) bn)" using later by auto
  have "take i bn = take i (take (Suc i) bn)" by simp
  then have "set (take i bn) \<subseteq> set (take (Suc i) bn)" by (metis set_take_subset)
  then have early: "p \<notin> frontal_keys (take i bn)" using notin by (auto simp: frontal_keys_def)
  let ?j = "length bn - Suc i"
  have j: "?j < length (rev bn)" using i by simp
  have nth: "rev bn ! ?j = bn ! i" using i by (simp add: rev_nth)
  have "drop (Suc ?j) (rev bn) = rev (take i bn)"
    using i by (simp add: drop_rev Suc_diff_Suc)
  then have "p \<notin> S \<union> frontal_keys (drop (Suc ?j) (rev bn))"
    using early pS by (simp add: frontal_keys_rev)
  then show ?thesis
    unfolding parents_resolvable_nth using j nth p by metis
qed

section \<open>Claims on the errors of the solve\<close>

text \<open>
  C5: when the conditional at some position \<open>i\<close> has a parent key \<open>p\<close> that is neither
  supplied nor a frontal of a later position, \<open>optimize\<close> returns no assignment. When the
  network keeps the other invariants of the data model (well-formed conditionals, one block
  dimension per key, no repeated frontal key, no frontal key among the supplied keys), the
  error is the missing-parent error, for a parent key that is unresolvable at its position.
  In particular a valid network with at least one parent and no supplied values, stored in
  reversed order, makes \<open>optimize()\<close> raise the missing-parent error.
\<close>

theorem optimize_raises_missing_parent:
  "(i < length bn \<and> p \<in> set (parents (bn ! i)) \<and>
    p \<notin> dom partialAssignment \<union> frontal_keys (drop (Suc i) bn) \<longrightarrow>
      (\<exists>e. optimize bn partialAssignment = Inl e) \<and>
      (list_all wf_conditional bn \<and> consistent_dims dims bn partialAssignment \<and>
       distinct (concat (map frontals bn)) \<and> dom partialAssignment \<inter> frontal_keys bn = {} \<longrightarrow>
         (\<exists>j q. j < length bn \<and> q \<in> set (parents (bn ! j)) \<and>
            q \<notin> dom partialAssignment \<union> frontal_keys (drop (Suc j) bn) \<and>
            optimize bn partialAssignment = Inl (MissingParent q)))) \<and>
   (list_all wf_conditional bn \<and> consistent_dims dims bn Map.empty \<and>
    distinct (concat (map frontals bn)) \<and> parents_resolvable bn {} \<and> parent_keys bn \<noteq> {} \<longrightarrow>
      (\<exists>q. q \<in> parent_keys bn \<and> optimize0 (rev bn) = Inl (MissingParent q)))"
proof (intro conjI impI)
  assume a: "i < length bn \<and> p \<in> set (parents (bn ! i)) \<and>
    p \<notin> dom partialAssignment \<union> frontal_keys (drop (Suc i) bn)"
  then have unres: "\<not> parents_resolvable bn (dom partialAssignment)"
    unfolding parents_resolvable_nth by blast
  show "\<exists>e. optimize bn partialAssignment = Inl e"
  proof (cases "optimize bn partialAssignment")
    case (Inl e)
    then show ?thesis by blast
  next
    case (Inr s)
    then show ?thesis using optimize_Inr[OF Inr] unres by blast
  qed
  assume "list_all wf_conditional bn \<and> consistent_dims dims bn partialAssignment \<and>
       distinct (concat (map frontals bn)) \<and> dom partialAssignment \<inter> frontal_keys bn = {}"
  then show "\<exists>j q. j < length bn \<and> q \<in> set (parents (bn ! j)) \<and>
            q \<notin> dom partialAssignment \<union> frontal_keys (drop (Suc j) bn) \<and>
            optimize bn partialAssignment = Inl (MissingParent q)"
    using optimize_unresolvable[OF unres] by blast
next
  assume v: "list_all wf_conditional bn \<and> consistent_dims dims bn Map.empty \<and>
    distinct (concat (map frontals bn)) \<and> parents_resolvable bn {} \<and> parent_keys bn \<noteq> {}"
  then obtain q0 where "q0 \<in> parent_keys bn" by blast
  then obtain cg where "cg \<in> set bn" "q0 \<in> set (parents cg)"
    unfolding parent_keys_def by blast
  then obtain i0 where i0: "i0 < length bn" "q0 \<in> set (parents (bn ! i0))"
    by (auto simp: in_set_conv_nth)
  have "\<not> parents_resolvable (rev bn) {}"
    by (rule reversed_unresolvable[of bn "{}" i0 q0]) (use v i0 in auto)
  then have unres: "\<not> parents_resolvable (rev bn) (dom (Map.empty :: VectorValues))" by simp
  have "\<exists>j q. j < length (rev bn) \<and> q \<in> set (parents (rev bn ! j)) \<and>
           q \<notin> dom (Map.empty :: VectorValues) \<union> frontal_keys (drop (Suc j) (rev bn)) \<and>
           optimize (rev bn) Map.empty = Inl (MissingParent q)"
    by (rule optimize_unresolvable[OF unres, of dims])
      (use v in \<open>auto simp: distinct_frontals_rev consistent_dims_rev frontal_keys_rev\<close>)
  then obtain j q where j: "j < length (rev bn)" and q: "q \<in> set (parents (rev bn ! j))"
    and e: "optimize (rev bn) Map.empty = Inl (MissingParent q)" by blast
  have "rev bn ! j \<in> set bn" using j by (metis nth_mem set_rev)
  then have "q \<in> parent_keys bn" using q by (auto simp: parent_keys_def)
  then show "\<exists>q. q \<in> parent_keys bn \<and> optimize0 (rev bn) = Inl (MissingParent q)"
    using e by (auto simp: optimize0_def)
qed

theorem optimize_reversed_chain_witness:
  "optimize0 [condA, condB] = Inr [2 \<mapsto> [3], 1 \<mapsto> [1]] \<and>
   optimize0 (rev [condA, condB]) = Inl (MissingParent 2) \<and>
   (\<exists>e. optimize [condB, condA] Map.empty = Inl e)"
proof -
  have ok: "optimize0 [condA, condB] = Inr [2 \<mapsto> [3], 1 \<mapsto> [1]]"
    by (simp add: optimize0_def optimize_def solve_def condA_def condB_def
        VectorValues_insert_def backSubstituteUpper_def dot_def vec_sub_def mat_vec_def)
  have h1: "(1::nat) < length [condB, condA] \<and> (2::nat) \<in> set (parents ([condB, condA] ! 1)) \<and>
      2 \<notin> dom (Map.empty :: VectorValues) \<union> frontal_keys (drop (Suc 1) [condB, condA])"
    by (simp add: condA_def frontal_keys_def)
  have h2: "list_all wf_conditional [condA, condB] \<and>
      consistent_dims (\<lambda>k. 1) [condA, condB] Map.empty \<and>
      distinct (concat (map frontals [condA, condB])) \<and> parents_resolvable [condA, condB] {} \<and>
      parent_keys [condA, condB] \<noteq> {}"
    by (simp add: wf_conditional_def consistent_dims_def frontal_keys_def parent_keys_def
        condA_def condB_def)
  from optimize_raises_missing_parent[where i = 1 and bn = "[condB, condA]" and p = 2
      and partialAssignment = Map.empty and dims = "\<lambda>k. 1", THEN conjunct1, THEN mp, OF h1]
  have e: "\<exists>e. optimize [condB, condA] Map.empty = Inl e" by blast
  from optimize_raises_missing_parent[where i = 0 and p = 0 and partialAssignment = Map.empty
      and bn = "[condA, condB]" and dims = "\<lambda>k. 1", THEN conjunct2, THEN mp, OF h2]
  obtain q where "q \<in> parent_keys [condA, condB]" "optimize0 (rev [condA, condB]) = Inl (MissingParent q)"
    by blast
  moreover have "parent_keys [condA, condB] = {2}"
    by (simp add: parent_keys_def condA_def condB_def)
  ultimately have "optimize0 (rev [condA, condB]) = Inl (MissingParent 2)" by simp
  then show ?thesis using ok e by simp
qed

text \<open>
  C6: when the traversal has solved the later positions and the solved block of the next
  conditional has a key that the growing assignment already holds, \<open>optimize\<close> fails with
  the duplicate-variable error. A returned assignment is never partial: its keys are the
  supplied keys and every frontal key, the supplied values are kept, and the network then
  has no repeated frontal key and none among the supplied keys. For a network that is valid
  apart from a repeated frontal key or a frontal key among the supplied keys, the call
  fails with the duplicate-variable error.
\<close>

theorem optimize_duplicate_variable_all_or_nothing:
  "(optimize post partialAssignment = Inr s \<and> solve cg s = Inr x \<and> dom s \<inter> dom x \<noteq> {} \<longrightarrow>
      optimize (pre @ cg # post) partialAssignment = Inl DuplicateVariable) \<and>
   (optimize bn partialAssignment = Inr soln \<longrightarrow>
      dom soln = dom partialAssignment \<union> frontal_keys bn \<and>
      (\<forall>k\<in>dom partialAssignment. soln k = partialAssignment k) \<and>
      distinct (concat (map frontals bn)) \<and> dom partialAssignment \<inter> frontal_keys bn = {}) \<and>
   (list_all wf_conditional bn \<and> consistent_dims dims bn partialAssignment \<and>
    parents_resolvable bn (dom partialAssignment) \<and>
    (\<not> distinct (concat (map frontals bn)) \<or> dom partialAssignment \<inter> frontal_keys bn \<noteq> {}) \<longrightarrow>
      optimize bn partialAssignment = Inl DuplicateVariable)"
proof (intro conjI impI)
  assume "optimize post partialAssignment = Inr s \<and> solve cg s = Inr x \<and> dom s \<inter> dom x \<noteq> {}"
  then show "optimize (pre @ cg # post) partialAssignment = Inl DuplicateVariable"
    using optimize_insert_present by blast
next
  assume r: "optimize bn partialAssignment = Inr soln"
  from optimize_Inr[OF r]
  show "dom soln = dom partialAssignment \<union> frontal_keys bn"
    and "\<forall>k\<in>dom partialAssignment. soln k = partialAssignment k"
    and "distinct (concat (map frontals bn))"
    and "dom partialAssignment \<inter> frontal_keys bn = {}" by blast+
next
  assume "list_all wf_conditional bn \<and> consistent_dims dims bn partialAssignment \<and>
    parents_resolvable bn (dom partialAssignment) \<and>
    (\<not> distinct (concat (map frontals bn)) \<or> dom partialAssignment \<inter> frontal_keys bn \<noteq> {})"
  then show "optimize bn partialAssignment = Inl DuplicateVariable"
    using optimize_duplicate by blast
qed

theorem optimize_duplicate_variable_witness:
  "optimize [condB, condB] Map.empty = Inl DuplicateVariable \<and>
   optimize [condB] [2 \<mapsto> [7]] = Inl DuplicateVariable \<and>
   optimize [condA, condB] Map.empty = Inr [2 \<mapsto> [3], 1 \<mapsto> [1]] \<and>
   dom [2 \<mapsto> [3::real], 1 \<mapsto> [1]] = dom (Map.empty :: VectorValues) \<union> frontal_keys [condA, condB]"
proof -
  note ev = optimize_def solve_def condA_def condB_def VectorValues_insert_def
    backSubstituteUpper_def dot_def vec_sub_def mat_vec_def
  have p1: "optimize [condB] Map.empty = Inr [2 \<mapsto> [3]] \<and> solve condB [2 \<mapsto> [3]] = Inr [2 \<mapsto> [3]] \<and>
      dom [2 \<mapsto> [3::real]] \<inter> dom [2 \<mapsto> [3::real]] \<noteq> {}"
    by (simp add: ev)
  have r1: "optimize ([] @ condB # [condB]) Map.empty = Inl DuplicateVariable"
    using optimize_duplicate_variable_all_or_nothing[where post = "[condB]"
        and partialAssignment = Map.empty and s = "[2 \<mapsto> [3]]" and cg = condB
        and x = "[2 \<mapsto> [3]]" and pre = "[]" and bn = "[]" and soln = Map.empty
        and dims = "\<lambda>k. 1", THEN conjunct1, THEN mp, OF p1] .
  have p3: "list_all wf_conditional [condB] \<and> consistent_dims (\<lambda>k. 1) [condB] [2 \<mapsto> [7]] \<and>
      parents_resolvable [condB] (dom [2 \<mapsto> [7::real]]) \<and>
      (\<not> distinct (concat (map frontals [condB])) \<or> dom [2 \<mapsto> [7::real]] \<inter> frontal_keys [condB] \<noteq> {})"
    by (simp add: wf_conditional_def consistent_dims_def frontal_keys_def condB_def)
  have r3: "optimize [condB] [2 \<mapsto> [7]] = Inl DuplicateVariable"
    using optimize_duplicate_variable_all_or_nothing[where bn = "[condB]"
        and partialAssignment = "[2 \<mapsto> [7]]" and dims = "\<lambda>k. 1" and post = "[]"
        and s = Map.empty and cg = condB and x = Map.empty and pre = "[]" and soln = Map.empty,
        THEN conjunct2, THEN conjunct2, THEN mp, OF p3] .
  have p2: "optimize [condA, condB] Map.empty = Inr [2 \<mapsto> [3], 1 \<mapsto> [1]]"
    by (simp add: ev)
  have r2: "dom [2 \<mapsto> [3::real], 1 \<mapsto> [1]] = dom (Map.empty :: VectorValues) \<union> frontal_keys [condA, condB]"
    using optimize_duplicate_variable_all_or_nothing[where bn = "[condA, condB]"
        and partialAssignment = Map.empty and soln = "[2 \<mapsto> [3], 1 \<mapsto> [1]]"
        and dims = "\<lambda>k. 1" and post = "[]" and s = Map.empty and cg = condB
        and x = Map.empty and pre = "[]", THEN conjunct2, THEN conjunct1, THEN mp, OF p2]
    by blast
  show ?thesis using r1 r3 p2 r2 by simp
qed

section \<open>General back-substitution: keys of the result\<close>

lemma solveOtherRHS_Inr_dom:
  "solveOtherRHS cg pv rhs = Inr x \<Longrightarrow> dom x = set (frontals cg)"
  unfolding solveOtherRHS_def
  by (auto split: sum.splits if_splits dest!: insert_frontals_Inr)

lemma backSubstitute_loop_dom:
  "backSubstitute_loop cgs rhs res = Inr result \<Longrightarrow> dom result = dom res \<union> frontal_keys cgs"
proof (induction cgs arbitrary: res)
  case Nil
  then show ?case by (simp add: frontal_keys_Nil)
next
  case (Cons cg cgs)
  from Cons.prems obtain x res' where x: "solveOtherRHS cg res rhs = Inr x"
    and ins: "VectorValues_insert res x = Inr res'"
    and rest: "backSubstitute_loop cgs rhs res' = Inr result"
    by (auto split: sum.splits)
  have "dom res' = dom res \<union> set (frontals cg)"
    using ins solveOtherRHS_Inr_dom[OF x] by (auto simp: VectorValues_insert_Inr)
  then show ?case using Cons.IH[OF rest] by (auto simp: frontal_keys_Cons)
qed

lemma solveOtherRHS_ok:
  assumes wf: "wf_conditional cg" and dist: "distinct (frontals cg)"
    and par: "set (parents cg) \<subseteq> dom pv"
    and pdims: "\<forall>p\<in>set (parents cg). length (value_at pv p) = getDim cg p"
    and fr: "set (frontals cg) \<subseteq> dom rhs"
    and fdims: "\<forall>k\<in>set (frontals cg). length (value_at rhs k) = getDim cg k"
  shows "\<exists>x. solveOtherRHS cg pv rhs = Inr x \<and> dom x = set (frontals cg) \<and>
           (\<forall>k\<in>set (frontals cg). length (value_at x k) = getDim cg k)"
proof -
  define n where "n = sum_list (map (getDim cg) (frontals cg))"
  define vs where "vs = map (value_at pv) (parents cg)"
  define ys where "ys = map (value_at rhs) (frontals cg)"
  define v where "v = backSubstituteUpper (get_R cg) (subtract_parents (concat ys) (get_S cg) vs)"
  from wf have Rn: "length (get_R cg) = n"
    and S: "list_all2 (\<lambda>p Sj. length Sj = n \<and> list_all (\<lambda>row. length row = getDim cg p) Sj) (parents cg) (get_S cg)"
    by (simp_all add: wf_conditional_def Let_def n_def)
  have Srows: "\<forall>Sj\<in>set (get_S cg). length Sj = n"
    using S by (auto simp: list_all2_conv_all_nth in_set_conv_nth)
  have "map length ys = map (getDim cg) (frontals cg)"
    using fdims by (simp add: ys_def)
  then have yn: "length (concat ys) = n"
    by (simp add: length_concat n_def)
  have bn: "length (subtract_parents (concat ys) (get_S cg) vs) = n"
    by (rule length_subtract_parents[OF yn Srows])
  have vn: "length v = n" unfolding v_def using Rn bn by (simp add: length_backSubstituteUpper)
  have look1: "lookup_all MissingParent pv (parents cg) = Inr vs"
    using par by (simp add: lookup_all_Inr vs_def)
  have look2: "lookup_all MissingKey rhs (frontals cg) = Inr ys"
    using fr by (simp add: lookup_all_Inr ys_def)
  have ok: "list_all2 (\<lambda>k v. length v = getDim cg k) (parents cg @ frontals cg) (vs @ ys)"
    using pdims fdims
    by (simp add: vs_def ys_def list_all2_appendI list_all2_map2 list_all2_same)
  have sv: "solveOtherRHS cg pv rhs = insert_frontals (getDim cg) Map.empty (frontals cg) v"
    by (simp add: solveOtherRHS_def look1 look2 ok v_def)
  obtain x where x: "insert_frontals (getDim cg) Map.empty (frontals cg) v = Inr x"
    and ln: "\<forall>k\<in>set (frontals cg). length (value_at x k) = getDim cg k"
    using insert_frontals_ok[of "frontals cg" Map.empty "getDim cg" v] dist vn
    by (auto simp: n_def)
  show ?thesis using sv x ln insert_frontals_Inr[OF x] by auto
qed

lemma backSubstitute_append_Cons:
  "backSubstitute (cg # bn) rhs =
     (case backSubstitute bn rhs of
        Inl e \<Rightarrow> Inl e
      | Inr res \<Rightarrow>
          (case solveOtherRHS cg res rhs of Inl e \<Rightarrow> Inl e | Inr x \<Rightarrow> VectorValues_insert res x))"
proof -
  have app: "backSubstitute_loop (xs @ ys) rhs res =
      (case backSubstitute_loop xs rhs res of Inl e \<Rightarrow> Inl e | Inr r \<Rightarrow> backSubstitute_loop ys rhs r)"
    for xs ys res
    by (induction xs arbitrary: res) (auto split: sum.splits)
  show ?thesis by (auto simp: backSubstitute_def app split: sum.splits)
qed

lemma backSubstitute_ok:
  assumes "list_all wf_conditional bn"
    and "consistent_dims dims bn rhs"
    and "distinct (concat (map frontals bn))"
    and "parents_resolvable bn {}"
    and "frontal_keys bn \<subseteq> dom rhs"
  shows "\<exists>result. backSubstitute bn rhs = Inr result \<and> dom result = frontal_keys bn \<and>
           (\<forall>k v. result k = Some v \<longrightarrow> length v = dims k)"
  using assms
proof (induction bn)
  case Nil
  then show ?case by (simp add: backSubstitute_def frontal_keys_Nil)
next
  case (Cons cg bn)
  have "\<exists>result. backSubstitute bn rhs = Inr result \<and> dom result = frontal_keys bn \<and>
           (\<forall>k v. result k = Some v \<longrightarrow> length v = dims k)"
    by (rule Cons.IH) (use Cons.prems in \<open>auto simp: consistent_dims_def frontal_keys_Cons\<close>)
  then obtain res where res: "backSubstitute bn rhs = Inr res"
    and dres: "dom res = frontal_keys bn"
    and len: "\<forall>k v. res k = Some v \<longrightarrow> length v = dims k" by blast
  have wf: "wf_conditional cg" using Cons.prems(1) by simp
  have dist: "distinct (frontals cg)" using Cons.prems(3) by simp
  have fresh: "set (frontals cg) \<inter> dom res = {}"
    using Cons.prems(3) dres by (auto simp: frontal_keys_def)
  have par: "set (parents cg) \<subseteq> dom res"
    using Cons.prems(4) dres by (auto simp: list_all_iff)
  have gd: "\<forall>k\<in>set (frontals cg) \<union> set (parents cg). getDim cg k = dims k"
    using Cons.prems(2) by (auto simp: consistent_dims_def list_all_iff)
  have pdims: "\<forall>p\<in>set (parents cg). length (value_at res p) = getDim cg p"
  proof
    fix p assume p: "p \<in> set (parents cg)"
    then obtain v where "res p = Some v" using par by auto
    then show "length (value_at res p) = getDim cg p"
      using len gd p by (simp add: value_at_def)
  qed
  have fr: "set (frontals cg) \<subseteq> dom rhs"
    using Cons.prems(5) by (auto simp: frontal_keys_Cons)
  have fdims: "\<forall>k\<in>set (frontals cg). length (value_at rhs k) = getDim cg k"
  proof
    fix k assume k: "k \<in> set (frontals cg)"
    then obtain v where v: "rhs k = Some v" using fr by auto
    then have "length v = dims k" using Cons.prems(2) by (auto simp: consistent_dims_def)
    then show "length (value_at rhs k) = getDim cg k" using v gd k by (simp add: value_at_def)
  qed
  obtain x where x: "solveOtherRHS cg res rhs = Inr x" and domx: "dom x = set (frontals cg)"
    and xl: "\<forall>k\<in>set (frontals cg). length (value_at x k) = getDim cg k"
    using solveOtherRHS_ok[OF wf dist par pdims fr fdims] by blast
  have ins: "VectorValues_insert res x = Inr (res ++ x)"
    using fresh domx by (auto simp: VectorValues_insert_def)
  have r: "backSubstitute (cg # bn) rhs = Inr (res ++ x)"
    by (simp add: backSubstitute_append_Cons res x ins)
  have d: "dom (res ++ x) = frontal_keys (cg # bn)"
    using dres domx by (auto simp: frontal_keys_Cons)
  have l: "\<forall>k v. (res ++ x) k = Some v \<longrightarrow> length v = dims k"
  proof (intro allI impI)
    fix k v assume kv: "(res ++ x) k = Some v"
    show "length v = dims k"
    proof (cases "k \<in> set (frontals cg)")
      case True
      then have "k \<in> dom x" using domx by simp
      then have "x k = Some v" using kv by (auto simp: map_add_Some_iff)
      then have "value_at x k = v" by (simp add: value_at_def)
      then show ?thesis using xl gd True by auto
    next
      case False
      then have "res k = Some v" using kv domx by (auto simp: map_add_Some_iff)
      then show ?thesis using len by blast
    qed
  qed
  show ?case using r d l by blast
qed

text \<open>
  C9: an assignment returned by \<open>backSubstitute\<close> has exactly the frontal keys of the network
  as its keys; a key of \<open>rhs\<close> that is frontal of no conditional is not in the output. The
  call does return for a network that keeps the invariants of the data model (no supplied
  values) when \<open>rhs\<close> holds a block of the right dimension for every frontal key.
\<close>

theorem backSubstitute_keys_are_frontals:
  "(backSubstitute bn rhs = Inr result \<longrightarrow>
      dom result = frontal_keys bn \<and> (\<forall>k\<in>dom rhs. k \<notin> frontal_keys bn \<longrightarrow> result k = None)) \<and>
   (list_all wf_conditional bn \<and> consistent_dims dims bn rhs \<and>
    distinct (concat (map frontals bn)) \<and> parents_resolvable bn {} \<and> frontal_keys bn \<subseteq> dom rhs \<longrightarrow>
      (\<exists>r. backSubstitute bn rhs = Inr r))"
proof (intro conjI impI)
  assume r: "backSubstitute bn rhs = Inr result"
  then have "dom result = dom (Map.empty :: VectorValues) \<union> frontal_keys (rev bn)"
    unfolding backSubstitute_def by (rule backSubstitute_loop_dom)
  then show d: "dom result = frontal_keys bn" by (simp add: frontal_keys_rev)
  show "\<forall>k\<in>dom rhs. k \<notin> frontal_keys bn \<longrightarrow> result k = None"
    using d by auto
next
  assume "list_all wf_conditional bn \<and> consistent_dims dims bn rhs \<and>
    distinct (concat (map frontals bn)) \<and> parents_resolvable bn {} \<and> frontal_keys bn \<subseteq> dom rhs"
  then show "\<exists>r. backSubstitute bn rhs = Inr r"
    using backSubstitute_ok[of bn dims rhs] by blast
qed

theorem backSubstitute_no_passthrough_witness:
  "backSubstitute [condA, condB] [1 \<mapsto> [5], 2 \<mapsto> [3], 7 \<mapsto> [9]] = Inr [2 \<mapsto> [3], 1 \<mapsto> [1]] \<and>
   dom [2 \<mapsto> [3::real], 1 \<mapsto> [1]] = frontal_keys [condA, condB] \<and>
   (7::Key) \<in> dom [1 \<mapsto> [5::real], 2 \<mapsto> [3], 7 \<mapsto> [9]] \<and>
   [(2::Key) \<mapsto> [3::real], 1 \<mapsto> [1]] 7 = None"
proof -
  have run: "backSubstitute [condA, condB] [1 \<mapsto> [5], 2 \<mapsto> [3], 7 \<mapsto> [9]] = Inr [2 \<mapsto> [3], 1 \<mapsto> [1]]"
    by (simp add: backSubstitute_def solveOtherRHS_def condA_def condB_def
        VectorValues_insert_def backSubstituteUpper_def dot_def vec_sub_def mat_vec_def)
  from backSubstitute_keys_are_frontals[where bn = "[condA, condB]"
      and rhs = "[1 \<mapsto> [5], 2 \<mapsto> [3], 7 \<mapsto> [9]]" and result = "[2 \<mapsto> [3], 1 \<mapsto> [1]]"
      and dims = "\<lambda>k. 1", THEN conjunct1, THEN mp, OF run]
  have "dom [2 \<mapsto> [3::real], 1 \<mapsto> [1]] = frontal_keys [condA, condB]" by blast
  then show ?thesis using run by simp
qed

section \<open>Claims on the transpose back-substitution\<close>

lemma update_parents_Inr:
  "update_parents d gy ps Ss gz = Inr gy' \<Longrightarrow>
     dom gy' = dom gy \<and> (\<forall>k. k \<notin> set ps \<longrightarrow> gy' k = gy k)"
proof (induction d gy ps Ss gz rule: update_parents.induct)
  case (1 dimOf gy p ps Sj Ss gz)
  from "1.prems" obtain v where v: "gy p = Some v" and lv: "length v = dimOf p"
    and rest: "update_parents dimOf (gy(p \<mapsto> vec_sub v (transpose_mat_vec (dimOf p) Sj gz))) ps Ss gz = Inr gy'"
    by (auto split: option.splits if_splits)
  from "1.IH"[OF v _ rest] lv
  have "dom gy' = dom (gy(p \<mapsto> vec_sub v (transpose_mat_vec (dimOf p) Sj gz)))"
    and "\<forall>k. k \<notin> set ps \<longrightarrow> gy' k = (gy(p \<mapsto> vec_sub v (transpose_mat_vec (dimOf p) Sj gz))) k"
    by auto
  then show ?case using v by auto
qed simp_all

lemma assign_frontals_frame:
  "dom (assign_frontals d gy ks v) = dom gy \<union> set ks \<and>
   (\<forall>k. k \<notin> set ks \<longrightarrow> assign_frontals d gy ks v k = gy k)"
  by (induction ks arbitrary: gy v) auto

lemma solveTransposeInPlace_frame:
  assumes "solveTransposeInPlace cg gy = Inr gy'"
  shows "dom gy' = dom gy \<and> (\<forall>k. k \<notin> set (frontals cg) \<union> set (parents cg) \<longrightarrow> gy' k = gy k)"
proof -
  from assms obtain xs g where look: "lookup_all MissingKey gy (frontals cg) = Inr xs"
    and up: "update_parents (getDim cg) gy (parents cg) (get_S cg)
               (forwardSubstituteTranspose (get_R cg) (concat xs)) = Inr g"
    and res: "gy' = assign_frontals (getDim cg) g (frontals cg)
               (case get_model cg of None \<Rightarrow> forwardSubstituteTranspose (get_R cg) (concat xs)
                | Some sigmas \<Rightarrow> map2 (*) (forwardSubstituteTranspose (get_R cg) (concat xs)) sigmas)"
    unfolding solveTransposeInPlace_def
    by (auto simp: Let_def split: sum.splits if_splits)
  have fr: "set (frontals cg) \<subseteq> dom gy" using look by (simp add: lookup_all_Inr)
  from update_parents_Inr[OF up] have dg: "dom g = dom gy"
    and fg: "\<forall>k. k \<notin> set (parents cg) \<longrightarrow> g k = gy k" by blast+
  show ?thesis
    unfolding res using assign_frontals_frame[of "getDim cg" g "frontals cg"] dg fg fr
    by auto
qed

lemma backSubstituteTranspose_loop_frame:
  "backSubstituteTranspose_loop cgs gy = Inr gy' \<Longrightarrow>
     dom gy' = dom gy \<and> (\<forall>k. k \<notin> frontal_keys cgs \<union> parent_keys cgs \<longrightarrow> gy' k = gy k)"
proof (induction cgs arbitrary: gy)
  case Nil
  then show ?case by simp
next
  case (Cons cg cgs)
  from Cons.prems obtain g where g: "solveTransposeInPlace cg gy = Inr g"
    and rest: "backSubstituteTranspose_loop cgs g = Inr gy'"
    by (auto split: sum.splits)
  from solveTransposeInPlace_frame[OF g] Cons.IH[OF rest]
  show ?case by (auto simp: frontal_keys_Cons parent_keys_def)
qed

text \<open>
  C4, as the code has it: when \<open>backSubstituteTranspose\<close> returns, the output has the keys of
  the input, and every key that no conditional refers to, neither as a frontal nor as a
  parent, keeps its input value. (A key that is only a parent receives the correction
  \<open>- S\<^sup>T gz\<close>.)
\<close>

theorem backSubstituteTranspose_passthrough:
  "backSubstituteTranspose bn gx = Inr gy \<longrightarrow>
     dom gy = dom gx \<and> (\<forall>k\<in>dom gx. k \<notin> frontal_keys bn \<union> parent_keys bn \<longrightarrow> gy k = gx k)"
  using backSubstituteTranspose_loop_frame[of bn gx gy]
  by (simp add: backSubstituteTranspose_def)

theorem backSubstituteTranspose_passthrough_witness:
  "backSubstituteTranspose [condA, condB] [1 \<mapsto> [2], 2 \<mapsto> [5], 7 \<mapsto> [9]] =
     Inr [7 \<mapsto> [9], 1 \<mapsto> [1], 2 \<mapsto> [4]] \<and>
   (7::Key) \<notin> frontal_keys [condA, condB] \<union> parent_keys [condA, condB] \<and>
   [(7::Key) \<mapsto> [9::real], 1 \<mapsto> [1], 2 \<mapsto> [4]] 7 = [(1::Key) \<mapsto> [2], 2 \<mapsto> [5], 7 \<mapsto> [9]] 7"
proof -
  have run: "backSubstituteTranspose [condA, condB] [1 \<mapsto> [2], 2 \<mapsto> [5], 7 \<mapsto> [9]] =
     Inr [7 \<mapsto> [9], 1 \<mapsto> [1], 2 \<mapsto> [4]]"
    by (simp add: backSubstituteTranspose_def solveTransposeInPlace_def
        forwardSubstituteTranspose_def transpose_mat_vec_def vec_sub_def condA_def condB_def
        fun_upd_twist)
  have k: "(7::Key) \<notin> frontal_keys [condA, condB] \<union> parent_keys [condA, condB]"
    by (simp add: frontal_keys_def parent_keys_def condA_def condB_def)
  have "(7::Key) \<in> dom [1 \<mapsto> [2::real], 2 \<mapsto> [5], 7 \<mapsto> [9]]" by simp
  with backSubstituteTranspose_passthrough[where bn = "[condA, condB]"
      and gx = "[1 \<mapsto> [2], 2 \<mapsto> [5], 7 \<mapsto> [9]]" and gy = "[7 \<mapsto> [9], 1 \<mapsto> [1], 2 \<mapsto> [4]]",
      THEN mp, OF run] k
  have "[(7::Key) \<mapsto> [9::real], 1 \<mapsto> [1], 2 \<mapsto> [4]] 7 = [(1::Key) \<mapsto> [2], 2 \<mapsto> [5], 7 \<mapsto> [9]] 7"
    by blast
  then show ?thesis using run k by blast
qed

text \<open>
  The claim as stated (every input key that is frontal of no conditional keeps its value)
  fails for a key that is a parent: in the network of conditional A alone, \<open>x2\<close> is frontal
  of nothing, enters with \<open>[5]\<close> and leaves with \<open>[5] - S\<^sup>T gz = [4]\<close>.
\<close>

theorem backSubstituteTranspose_parent_counterexample:
  "backSubstituteTranspose [condA] [1 \<mapsto> [2], 2 \<mapsto> [5]] = Inr [1 \<mapsto> [1], 2 \<mapsto> [4]] \<and>
   (2::Key) \<notin> frontal_keys [condA] \<and>
   [(1::Key) \<mapsto> [2::real], 2 \<mapsto> [5]] 2 = Some [5] \<and>
   [(1::Key) \<mapsto> [1::real], 2 \<mapsto> [4]] 2 \<noteq> Some [5]"
  by (simp add: backSubstituteTranspose_def solveTransposeInPlace_def
      forwardSubstituteTranspose_def transpose_mat_vec_def vec_sub_def condA_def
      frontal_keys_def fun_upd_twist)

section \<open>Claims on the delegation bridge\<close>

text \<open>
  C7: whatever the factor graph's queries compute, \<open>gradient\<close>, \<open>gradientAtZero\<close>, \<open>error\<close>
  and \<open>matrix\<close> return the result of the corresponding query on the factor graph rebuilt from
  the conditional sequence: one factor per conditional, in the same order, with the same
  keys, R, S, d and noise model.
\<close>

theorem queries_delegate_to_factor_graph:
  "gradient fg_gradient bn x0 = fg_gradient (GaussianFactorGraph bn) x0 \<and>
   gradientAtZero fg_gradientAtZero bn = fg_gradientAtZero (GaussianFactorGraph bn) \<and>
   error fg_error bn x = fg_error (GaussianFactorGraph bn) x \<and>
   matrix fg_jacobian bn = fg_jacobian (GaussianFactorGraph bn) \<and>
   length (GaussianFactorGraph bn) = length bn \<and>
   map factor_keys (GaussianFactorGraph bn) = map (\<lambda>cg. frontals cg @ parents cg) bn \<and>
   map factor_R (GaussianFactorGraph bn) = map get_R bn \<and>
   map factor_S (GaussianFactorGraph bn) = map get_S bn \<and>
   map factor_d (GaussianFactorGraph bn) = map get_d bn \<and>
   map factor_model (GaussianFactorGraph bn) = map get_model bn"
  by (simp add: gradient_def gradientAtZero_def error_def matrix_def GaussianFactorGraph_def
      asFactor_def comp_def)

end
